theory Spec2Isabelle
  imports Main "HOL-Library.Option_ord"
begin

chapter \<open>The programs\<close>

section \<open>Python strings\<close>

text \<open>
  A Python \<open>str\<close> is a sequence of Unicode code points, so a character is modelled by
  its code point (a natural number) and a string by the list of its code points. Plain
  ASCII literals of the source are written \<open>str ''...''\<close>; the few non-ASCII characters
  of the source are given by number (the footnote sentinel U+2191 is \<open>8593\<close>).
\<close>

type_synonym pchar = nat

type_synonym pstr = "pchar list"

definition str :: "string \<Rightarrow> pstr" where
  "str s = map of_char s"

abbreviation NL :: pchar where "NL \<equiv> 10"

abbreviation CR :: pchar where "CR \<equiv> 13"

abbreviation SP :: pchar where "SP \<equiv> 32"

text \<open>
  \<open>str.isspace\<close> of one character: the code points for which CPython's
  \<open>Py_UNICODE_ISSPACE\<close> holds. \<open>str.strip()\<close>, \<open>str.split()\<close> and the class
  \<open>\s\<close> of \<open>re\<close> on \<open>str\<close> patterns all use this set.
\<close>

definition isspace :: "pchar \<Rightarrow> bool" where
  "isspace c =
     ((9 \<le> c \<and> c \<le> 13) \<or> (28 \<le> c \<and> c \<le> 32) \<or> c = 133 \<or> c = 160 \<or> c = 5760 \<or>
      (8192 \<le> c \<and> c \<le> 8202) \<or> c = 8232 \<or> c = 8233 \<or> c = 8239 \<or> c = 8287 \<or>
      c = 12288)"

text \<open>
  The class \<open>\d\<close> of \<open>re\<close> on \<open>str\<close> patterns, which is also the set of digits that
  \<open>int()\<close> reads: the characters with the Unicode property of a decimal digit (the
  category Nd). They come in blocks of ten consecutive code points that stand for the
  digits 0 to 9 in this order. \<open>DECIMAL_ZEROS\<close> lists the first code point of every
  block (66 blocks, 660 characters: the tables of Unicode 14.0 that CPython 3.11 has), and
  \<open>digit_value c\<close> is the digit that \<open>c\<close> stands for.
\<close>

definition DECIMAL_ZEROS :: "pchar list" where
  "DECIMAL_ZEROS =
     [48, 1632, 1776, 1984, 2406, 2534, 2662, 2790, 2918, 3046, 3174, 3302, 3430,
      3558, 3664, 3792, 3872, 4160, 4240, 6112, 6160, 6470, 6608, 6784, 6800, 6992,
      7088, 7232, 7248, 42528, 43216, 43264, 43472, 43504, 43600, 44016, 65296,
      66720, 68912, 69734, 69872, 69942, 70096, 70384, 70736, 70864, 71248, 71360,
      71472, 71904, 72016, 72784, 73040, 73120, 92768, 92864, 93008, 120782, 120792,
      120802, 120812, 120822, 123200, 123632, 125264, 130032]"

definition digit_value :: "pchar \<Rightarrow> nat option" where
  "digit_value c =
     map_option (\<lambda>z. c - z) (find (\<lambda>z. z \<le> c \<and> c < z + 10) DECIMAL_ZEROS)"

definition isdigit :: "pchar \<Rightarrow> bool" where
  "isdigit c = (digit_value c \<noteq> None)"

text \<open>
  The exceptions that end a run: \<open>sys.exit(status)\<close>, an index out of range, a key
  missing from a dictionary, and \<open>ValueError\<close> (raised by \<open>int\<close>, and by \<open>min\<close> on an
  empty list). A function that can raise returns a sum, \<open>Inl\<close> the exception.
\<close>

datatype py_exn = SystemExit int | IndexError | KeyError | ValueError

text \<open>
  \<open>int(s)\<close> for the strings that the parsers pass to it, the group \<open>(\d+)\<close> of a match:
  the number that the decimal digits of \<open>s\<close> write in base ten. \<open>int\<close> raises
  \<open>ValueError\<close> when \<open>s\<close> has more than 4300 digits (the default of
  \<open>sys.int_info.default_max_str_digits\<close> since CPython 3.11, which the parsers do not
  change), and when \<open>s\<close> is empty or holds a character that is neither a digit nor one
  of the signs, spaces and underscores that \<open>int\<close> accepts besides; no string with such
  a character reaches \<open>int\<close> here, and the model raises on every one.
\<close>

definition int_of_digits :: "pstr \<Rightarrow> py_exn + int" where
  "int_of_digits ds =
     (if ds = [] \<or> \<not> list_all isdigit ds \<or> 4300 < length ds then Inl ValueError
      else Inr (foldl (\<lambda>acc c. 10 * acc + int (the (digit_value c))) 0 ds))"

text \<open>A \<open>for\<close> loop whose body can raise: the loop ends at the first exception.\<close>

fun foldl_exn :: "('s \<Rightarrow> 'a \<Rightarrow> py_exn + 's) \<Rightarrow> 's \<Rightarrow> 'a list \<Rightarrow> py_exn + 's" where
  "foldl_exn f st [] = Inr st"
| "foldl_exn f st (x # xs) =
     (case f st x of
        Inl e \<Rightarrow> Inl e
      | Inr st' \<Rightarrow> foldl_exn f st' xs)"

text \<open>The character ranges \<open>[A-Z]\<close> and \<open>[a-z]\<close> of the patterns.\<close>

definition is_AZ :: "pchar \<Rightarrow> bool" where
  "is_AZ c = (65 \<le> c \<and> c \<le> 90)"

definition is_az :: "pchar \<Rightarrow> bool" where
  "is_az c = (97 \<le> c \<and> c \<le> 122)"

text \<open>\<open>s.strip()\<close>, \<open>s.rstrip(chars)\<close> for a single character, \<open>s.startswith(p)\<close>
  and \<open>p in s\<close>.\<close>

definition strip :: "pstr \<Rightarrow> pstr" where
  "strip s = rev (dropWhile isspace (rev (dropWhile isspace s)))"

definition rstrip_char :: "pchar \<Rightarrow> pstr \<Rightarrow> pstr" where
  "rstrip_char c s = rev (dropWhile (\<lambda>x. x = c) (rev s))"

definition startswith :: "pstr \<Rightarrow> pstr \<Rightarrow> bool" where
  "startswith s p = (take (length p) s = p)"

fun contains :: "pstr \<Rightarrow> pstr \<Rightarrow> bool" where
  "contains [] p = (p = [])"
| "contains (c # cs) p = (startswith (c # cs) p \<or> contains cs p)"

text \<open>\<open>s.split()\<close>: the maximal runs of non-whitespace characters.\<close>

function split_ws :: "pstr \<Rightarrow> pstr list" where
  "split_ws s =
     (case dropWhile isspace s of
        [] \<Rightarrow> []
      | c # cs \<Rightarrow> takeWhile (\<lambda>x. \<not> isspace x) (c # cs)
                 # split_ws (dropWhile (\<lambda>x. \<not> isspace x) cs))"
  by pat_completeness auto
termination
proof (relation "measure length", goal_cases)
  case 1
  show ?case by simp
next
  case (2 s c cs)
  have "length (dropWhile (\<lambda>x. \<not> isspace x) cs) \<le> length cs"
    by (rule length_dropWhile_le)
  moreover have "length (dropWhile isspace s) \<le> length s"
    by (rule length_dropWhile_le)
  ultimately show ?case using 2 by simp
qed

declare split_ws.simps [simp del]

text \<open>\<open>s.split(sep)\<close> for a one-character separator, and \<open>sep.join(parts)\<close>.\<close>

fun split_on :: "pchar \<Rightarrow> pstr \<Rightarrow> pstr list" where
  "split_on sep [] = [[]]"
| "split_on sep (c # cs) =
     (if c = sep then [] # split_on sep cs
      else (case split_on sep cs of
              [] \<Rightarrow> [[c]]
            | l # ls \<Rightarrow> (c # l) # ls))"

fun join :: "pstr \<Rightarrow> pstr list \<Rightarrow> pstr" where
  "join sep [] = []"
| "join sep [l] = l"
| "join sep (l # m # ls) = l @ sep @ join sep (m # ls)"

text \<open>
  \<open>s.replace(old, new)\<close>: the occurrences of \<open>old\<close> are replaced from left to right
  without overlap; an empty \<open>old\<close> matches before every character and at the end.
\<close>

function replace :: "pstr \<Rightarrow> pstr \<Rightarrow> pstr \<Rightarrow> pstr" where
  "replace old new [] = (if old = [] then new else [])"
| "replace old new (c # cs) =
     (if old = [] then new @ c # replace old new cs
      else if startswith (c # cs) old then new @ replace old new (drop (length old) (c # cs))
      else c # replace old new cs)"
  by pat_completeness auto
termination
  by (relation "measure (\<lambda>(old, new, s). length s)") (auto simp: startswith_def)

text \<open>
  \<open>pattern.sub(repl, s)\<close> for a pattern without anchors or look-behind, given by the
  function \<open>m\<close> that tells, for the text from the current position on, the length of
  the match starting there (if any): the text is scanned from the left, a match is
  replaced by \<open>repl\<close> and the scan goes on after it; where nothing matches the
  character is kept. An empty match inserts \<open>repl\<close> and keeps the character.
\<close>

function re_sub :: "(pstr \<Rightarrow> nat option) \<Rightarrow> pstr \<Rightarrow> pstr \<Rightarrow> pstr" where
  "re_sub m repl [] = (case m [] of None \<Rightarrow> [] | Some k \<Rightarrow> repl)"
| "re_sub m repl (c # cs) =
     (case m (c # cs) of
        None \<Rightarrow> c # re_sub m repl cs
      | Some 0 \<Rightarrow> repl @ c # re_sub m repl cs
      | Some (Suc k) \<Rightarrow> repl @ re_sub m repl (drop k cs))"
  by pat_completeness auto
termination
  by (relation "measure (\<lambda>(m, repl, s). length s)") auto

text \<open>The anchor \<open>$\<close> (no MULTILINE flag): the end of the string, or just before a
  newline that ends the string.\<close>

definition at_dollar :: "pstr \<Rightarrow> bool" where
  "at_dollar r = (r = [] \<or> r = [NL])"

text \<open>A literal prefix of a pattern: the rest of the text after it.\<close>

definition lit :: "pstr \<Rightarrow> pstr \<Rightarrow> pstr option" where
  "lit p s = (if startswith s p then Some (drop (length p) s) else None)"

section \<open>Roman numerals (parser\_letters.py, parser\_discourses.py)\<close>

text \<open>
  \<open>_ROMAN_VALUES\<close>, \<open>roman_to_int\<close> and \<open>int_to_roman\<close> are the same text in both
  files. Each \<open>while\<close> loop of the source is a recursive function; the \<open>for\<close> loop over
  the table is a fold that threads the loop variables (\<open>result\<close> and \<open>i\<close>, or
  \<open>result\<close> and \<open>n\<close>). The loops end because every numeral of the table is non-empty
  and every value positive (lemma \<open>ROMAN_VALUES_guard\<close>); the recursion tests just
  that, so that it is total for any table entry.
\<close>

definition ROMAN_VALUES :: "(pstr \<times> int) list" where
  "ROMAN_VALUES =
     [(str ''M'', 1000), (str ''CM'', 900), (str ''D'', 500), (str ''CD'', 400),
      (str ''C'', 100), (str ''XC'', 90), (str ''L'', 50), (str ''XL'', 40),
      (str ''X'', 10), (str ''IX'', 9), (str ''V'', 5), (str ''IV'', 4), (str ''I'', 1)]"

function roman_to_int_while :: "pstr \<Rightarrow> pstr \<Rightarrow> int \<Rightarrow> int \<Rightarrow> nat \<Rightarrow> int \<times> nat" where
  "roman_to_int_while s nml v result i =
     (if nml \<noteq> [] \<and> take (length nml) (drop i s) = nml
      then roman_to_int_while s nml v (result + v) (i + length nml)
      else (result, i))"
  by pat_completeness auto
termination
proof (relation "measure (\<lambda>(s, nml, v, result, i). length s - i)", goal_cases)
  case 1
  show ?case by simp
next
  case (2 s nml v result i)
  then have "length (take (length nml) (drop i s)) = length nml" by simp
  then have "length nml \<le> length s - i" by simp
  with 2 show ?case by (cases nml) auto
qed

declare roman_to_int_while.simps [simp del]

definition roman_to_int :: "pstr \<Rightarrow> int" where
  "roman_to_int s =
     fst (foldl (\<lambda>(result, i) (nml, v). roman_to_int_while s nml v result i)
            (0, 0) ROMAN_VALUES)"

function int_to_roman_while :: "pstr \<Rightarrow> int \<Rightarrow> pstr list \<Rightarrow> int \<Rightarrow> pstr list \<times> int" where
  "int_to_roman_while nml v result n =
     (if 0 < v \<and> n \<ge> v
      then int_to_roman_while nml v (result @ [nml]) (n - v)
      else (result, n))"
  by pat_completeness auto
termination
  by (relation "measure (\<lambda>(nml, v, result, n). nat n)") auto

declare int_to_roman_while.simps [simp del]

definition int_to_roman :: "int \<Rightarrow> pstr" where
  "int_to_roman n =
     concat (fst (foldl (\<lambda>(result, n) (nml, v). int_to_roman_while nml v result n)
                    ([], n) ROMAN_VALUES))"

section \<open>The Moral Letters (parser\_letters.py)\<close>

subsection \<open>Line patterns\<close>

text \<open>
  Every pattern of the source is applied with \<open>match\<close>, which anchors it at the start
  of the text. A pattern is modelled by a function that reads the text from the left:
  a greedy repetition takes the longest run of its class (\<open>takeWhile\<close>) and the rest of
  the pattern goes on after it (\<open>dropWhile\<close>). That is what the backtracking matcher
  finds wherever the element after a repetition cannot start with a character of the
  repeated class, which holds for each repetition treated so below; the two places where
  it does not hold (\<open>.*\<close> in the contents pattern and the lazy \<open>+?\<close> in the header
  pattern) search all splits, in the matcher's order.
\<close>

definition is_IVXLC :: "pchar \<Rightarrow> bool" where
  "is_IVXLC c = (c \<in> set (str ''IVXLC''))"

definition is_IVX :: "pchar \<Rightarrow> bool" where
  "is_IVX c = (c \<in> set (str ''IVX''))"

text \<open>\<open>RE_FOOTNOTE_MARKER = \[\d+\]\<close>: the length of the marker at the start of the
  text (\<open>[\<close> is 91, \<open>]\<close> is 93).\<close>

definition RE_FOOTNOTE_MARKER :: "pstr \<Rightarrow> nat option" where
  "RE_FOOTNOTE_MARKER s =
     (case s of
        [] \<Rightarrow> None
      | c # r \<Rightarrow>
          if c = 91 \<and> takeWhile isdigit r \<noteq> [] \<and> startswith (dropWhile isdigit r) [93]
          then Some (length (takeWhile isdigit r) + 2)
          else None)"

text \<open>The common tail \<open>(\[\d+\])?\s*$\<close> of the two header patterns: an optional marker,
  then whitespace up to the end (the matcher tries the marker first, then without it).\<close>

definition marker_ws_end :: "pstr \<Rightarrow> bool" where
  "marker_ws_end r =
     (case RE_FOOTNOTE_MARKER r of
        Some k \<Rightarrow> list_all isspace (drop k r) \<or> list_all isspace r
      | None \<Rightarrow> list_all isspace r)"

text \<open>The title class \<open>[A-Z\s,\'\u2018\u2019\-\.\(\)]\<close> (comma 44, apostrophe 39, the
  two quotation marks 8216 and 8217, hyphen 45, full stop 46, parentheses 40 and 41).\<close>

definition is_title_char :: "pchar \<Rightarrow> bool" where
  "is_title_char c =
     (is_AZ c \<or> isspace c \<or> c = 44 \<or> c = 39 \<or> c = 8216 \<or> c = 8217 \<or> c = 45 \<or>
      c = 46 \<or> c = 40 \<or> c = 41)"

text \<open>The lazy \<open>[...]+?\<close> of the header pattern followed by the tail: the number of
  characters the lazy repetition takes, the fewest (at least one) after which the tail
  matches. \<open>title_more\<close> is the search once one character has been taken.\<close>

fun title_more :: "pstr \<Rightarrow> nat option" where
  "title_more [] = (if marker_ws_end [] then Some 0 else None)"
| "title_more (c # cs) =
     (if marker_ws_end (c # cs) then Some 0
      else if is_title_char c then map_option Suc (title_more cs)
      else None)"

definition title_lazy :: "pstr \<Rightarrow> nat option" where
  "title_lazy body =
     (case body of
        [] \<Rightarrow> None
      | c # cs \<Rightarrow> if is_title_char c then map_option Suc (title_more cs) else None)"

text \<open>\<open>RE_LETTER_HEADER =
  ^([IVXLC]+)\.\s+([A-Z][A-Z\s,\'\u2018\u2019\-\.\(\)]+?)(\[\d+\])?\s*$\<close>: the groups 1
  and 2 of the match.\<close>

definition RE_LETTER_HEADER :: "pstr \<Rightarrow> (pstr \<times> pstr) option" where
  "RE_LETTER_HEADER s =
     (let roman = takeWhile is_IVXLC s in
      if roman = [] then None
      else case lit [46] (dropWhile is_IVXLC s) of
        None \<Rightarrow> None
      | Some r \<Rightarrow>
          if takeWhile isspace r = [] then None
          else case dropWhile isspace r of
            [] \<Rightarrow> None
          | a # body \<Rightarrow>
              if \<not> is_AZ a then None
              else case title_lazy body of
                None \<Rightarrow> None
              | Some k \<Rightarrow> Some (roman, a # take k body))"

text \<open>\<open>RE_LETTER_91_HEADER =
  ^ON THE LESSON TO BE DRAWN FROM THE BURNING OF LYONS(\[\d+\])?\s*$\<close>.\<close>

definition RE_LETTER_91_HEADER :: "pstr \<Rightarrow> bool" where
  "RE_LETTER_91_HEADER s =
     (case lit (str ''ON THE LESSON TO BE DRAWN FROM THE BURNING OF LYONS'') s of
        None \<Rightarrow> False
      | Some r \<Rightarrow> marker_ws_end r)"

text \<open>\<open>RE_FOOTNOTE_LINE = ^\<up>\<close>, the arrow being U+2191.\<close>

definition RE_FOOTNOTE_LINE :: "pstr \<Rightarrow> bool" where
  "RE_FOOTNOTE_LINE s = startswith s [8593]"

text \<open>\<open>RE_SEPARATOR = ^\*\s+\*\s+\*$\<close> (the asterisk is 42).\<close>

definition RE_SEPARATOR :: "pstr \<Rightarrow> bool" where
  "RE_SEPARATOR s =
     (case lit [42] s of
        None \<Rightarrow> False
      | Some r1 \<Rightarrow>
          takeWhile isspace r1 \<noteq> [] \<and>
          (case lit [42] (dropWhile isspace r1) of
             None \<Rightarrow> False
           | Some r2 \<Rightarrow>
               takeWhile isspace r2 \<noteq> [] \<and>
               (case lit [42] (dropWhile isspace r2) of
                  None \<Rightarrow> False
                | Some r3 \<Rightarrow> at_dollar r3)))"

text \<open>\<open>RE_VOLUME_HEADER = ^THE EPISTLES OF SENECA$\<close> and
  \<open>RE_VOLUME_MARKER = ^Volume [IVX]+\.$\<close>.\<close>

definition RE_VOLUME_HEADER :: "pstr \<Rightarrow> bool" where
  "RE_VOLUME_HEADER s =
     (case lit (str ''THE EPISTLES OF SENECA'') s of
        None \<Rightarrow> False
      | Some r \<Rightarrow> at_dollar r)"

definition RE_VOLUME_MARKER :: "pstr \<Rightarrow> bool" where
  "RE_VOLUME_MARKER s =
     (case lit (str ''Volume '') s of
        None \<Rightarrow> False
      | Some r \<Rightarrow>
          takeWhile is_IVX r \<noteq> [] \<and>
          (case lit [46] (dropWhile is_IVX r) of
             None \<Rightarrow> False
           | Some r' \<Rightarrow> at_dollar r'))"

text \<open>\<open>RE_TOC_ENTRY = ^[IVXLC]+\.\s+[A-Z].*\s+\d+\s*$\<close>. \<open>toc_number\<close> is the end
  \<open>\s+\d+\s*$\<close>; \<open>toc_rest\<close> is \<open>.*\<close> followed by it: some split of the text whose
  first part has no newline.\<close>

definition toc_number :: "pstr \<Rightarrow> bool" where
  "toc_number t =
     (takeWhile isspace t \<noteq> [] \<and>
      takeWhile isdigit (dropWhile isspace t) \<noteq> [] \<and>
      list_all isspace (dropWhile isdigit (dropWhile isspace t)))"

fun toc_rest :: "pstr \<Rightarrow> bool" where
  "toc_rest [] = toc_number []"
| "toc_rest (c # cs) = (toc_number (c # cs) \<or> (c \<noteq> NL \<and> toc_rest cs))"

definition RE_TOC_ENTRY :: "pstr \<Rightarrow> bool" where
  "RE_TOC_ENTRY s =
     (takeWhile is_IVXLC s \<noteq> [] \<and>
      (case lit [46] (dropWhile is_IVXLC s) of
         None \<Rightarrow> False
       | Some r \<Rightarrow>
           takeWhile isspace r \<noteq> [] \<and>
           (case dropWhile isspace r of
              [] \<Rightarrow> False
            | a # rest \<Rightarrow> is_AZ a \<and> toc_rest rest)))"

text \<open>\<open>RE_APPARATUS_ENTRY = ^[IVXLC]+\.\s+\d+\.\<close>.\<close>

definition RE_APPARATUS_ENTRY :: "pstr \<Rightarrow> bool" where
  "RE_APPARATUS_ENTRY s =
     (takeWhile is_IVXLC s \<noteq> [] \<and>
      (case lit [46] (dropWhile is_IVXLC s) of
         None \<Rightarrow> False
       | Some r \<Rightarrow>
           takeWhile isspace r \<noteq> [] \<and>
           takeWhile isdigit (dropWhile isspace r) \<noteq> [] \<and>
           startswith (dropWhile isdigit (dropWhile isspace r)) [46]))"

text \<open>The patterns that are a fixed start of the line: \<open>^CONTENTS OF VOLUME\<close>,
  \<open>^(INDEX OF PROPER NAMES|SUBJECT INDEX)\<close>, \<open>^APPENDIX\<close>,
  \<open>^Printed in Great Britain\<close>; and \<open>^About this digital edition$\<close>.\<close>

definition RE_CONTENTS_HEADER :: "pstr \<Rightarrow> bool" where
  "RE_CONTENTS_HEADER s = startswith s (str ''CONTENTS OF VOLUME'')"

definition RE_INDEX_HEADER :: "pstr \<Rightarrow> bool" where
  "RE_INDEX_HEADER s =
     (startswith s (str ''INDEX OF PROPER NAMES'') \<or> startswith s (str ''SUBJECT INDEX''))"

definition RE_APPENDIX_HEADER :: "pstr \<Rightarrow> bool" where
  "RE_APPENDIX_HEADER s = startswith s (str ''APPENDIX'')"

definition RE_PRINTER :: "pstr \<Rightarrow> bool" where
  "RE_PRINTER s = startswith s (str ''Printed in Great Britain'')"

definition RE_DIGITAL_EDITION :: "pstr \<Rightarrow> bool" where
  "RE_DIGITAL_EDITION s =
     (case lit (str ''About this digital edition'') s of
        None \<Rightarrow> False
      | Some r \<Rightarrow> at_dollar r)"

subsection \<open>Output records\<close>

text \<open>
  The section dictionaries of the four \<open>build_sections\<close>, as one record: the keys are
  prefixed with \<open>s_\<close>; a key that a parser sets to \<open>None\<close>, or does not write, is
  \<open>None\<close> here (\<open>section\<close> is written by the Meditations only, \<open>letter_title\<close> by the
  Letters only).
\<close>

record out_section =
  s_id :: pstr
  s_book :: "int option"
  s_book_title :: "pstr option"
  s_chapter :: "int option"
  s_chapter_title :: "pstr option"
  s_section :: "int option"
  s_letter_number :: "int option"
  s_letter_title :: "pstr option"
  s_text :: pstr
  s_word_count :: nat
  s_source_reference :: pstr

text \<open>Formatting an integer in an f-string: \<open>{n}\<close> is \<open>show_int n\<close>, and \<open>{n:0Wd}\<close> is
  \<open>fmt_0d W n\<close> (zeros between the sign and the digits up to the width). The limit of
  4300 digits holds for this conversion too; it is left out here, since the numbers
  that the parsers format come from a range test or from a Roman numeral, which would
  need more than \<open>10\<^sup>4\<^sup>2\<^sup>9\<^sup>6\<close> letters to reach it.\<close>

function digits_of :: "nat \<Rightarrow> pstr" where
  "digits_of n = (if n < 10 then [48 + n] else digits_of (n div 10) @ [48 + n mod 10])"
  by pat_completeness auto
termination
  by (relation "measure id") auto

declare digits_of.simps [simp del]

definition show_int :: "int \<Rightarrow> pstr" where
  "show_int n = (if n < 0 then 45 # digits_of (nat (- n)) else digits_of (nat n))"

definition fmt_0d :: "nat \<Rightarrow> int \<Rightarrow> pstr" where
  "fmt_0d w n =
     (let sign = (if n < 0 then [45] else []); ds = digits_of (nat \<bar>n\<bar>)
      in sign @ replicate (w - length sign - length ds) 48 @ ds)"

subsection \<open>Content regions\<close>

text \<open>\<open>find_letter_regions\<close>: \<open>region_end\<close> is the inner \<open>while\<close> loop (the scan for
  the end of a region, from \<open>j\<close>), \<open>find_letter_regions_from\<close> the outer one.\<close>

function region_end :: "pstr list \<Rightarrow> nat \<Rightarrow> nat \<Rightarrow> nat" where
  "region_end lines start j =
     (if j < length lines then
        (let s = strip (lines ! j) in
         if RE_VOLUME_MARKER s then j
         else if RE_INDEX_HEADER s then j
         else if RE_APPENDIX_HEADER s then j
         else if RE_PRINTER s then j
         else if RE_DIGITAL_EDITION s then j
         else if RE_CONTENTS_HEADER s then j
         else if j > start \<and> RE_VOLUME_HEADER s then j
         else region_end lines start (j + 1))
      else j)"
  by pat_completeness auto
termination
  by (relation "measure (\<lambda>(lines, start, j). length lines - j)") auto

declare region_end.simps [simp del]

function find_letter_regions_from ::
  "pstr list \<Rightarrow> nat \<Rightarrow> (nat \<times> nat) list \<Rightarrow> (nat \<times> nat) list" where
  "find_letter_regions_from lines i regions =
     (if i < length lines then
        (if RE_VOLUME_HEADER (strip (lines ! i)) then
           (let start = i + 1; j = region_end lines start start
            in find_letter_regions_from lines j (regions @ [(start, j)]))
         else find_letter_regions_from lines (i + 1) regions)
      else regions)"
  by pat_completeness auto
termination
proof (relation "measure (\<lambda>(lines, i, regions). length lines - i)", goal_cases)
  case 1
  show ?case by simp
next
  case (2 lines i regions x xa)
  have "j \<le> region_end ls start j" for ls start j
  proof (induction ls start j rule: region_end.induct)
    case (1 ls start j)
    show ?case
    proof (cases "j < length ls")
      case False
      then show ?thesis by (subst region_end.simps) simp
    next
      case True
      let ?s = "strip (ls ! j)"
      show ?thesis
      proof (cases "RE_VOLUME_MARKER ?s \<or> RE_INDEX_HEADER ?s \<or> RE_APPENDIX_HEADER ?s \<or>
                    RE_PRINTER ?s \<or> RE_DIGITAL_EDITION ?s \<or> RE_CONTENTS_HEADER ?s \<or>
                    (j > start \<and> RE_VOLUME_HEADER ?s)")
        case True
        with \<open>j < length ls\<close> show ?thesis
          by (subst region_end.simps) (auto simp: Let_def)
      next
        case False
        with \<open>j < length ls\<close> have "j + 1 \<le> region_end ls start (j + 1)"
          by (intro "1.IH") auto
        moreover from False \<open>j < length ls\<close>
        have "region_end ls start j = region_end ls start (j + 1)"
          by (subst region_end.simps) (auto simp: Let_def)
        ultimately show ?thesis by simp
      qed
    qed
  qed
  then have "i + 1 \<le> region_end lines (i + 1) (i + 1)" .
  with 2 show ?case by simp
next
  case (3 lines i regions)
  then show ?case by simp
qed

declare find_letter_regions_from.simps [simp del]

definition find_letter_regions :: "pstr list \<Rightarrow> (nat \<times> nat) list" where
  "find_letter_regions lines = find_letter_regions_from lines 0 []"

subsection \<open>Letter headers and the segmentation loop\<close>

text \<open>\<open>is_letter_header(line)\<close>; its second parameter \<open>in_content\<close> is never read.\<close>

definition is_letter_header :: "pstr \<Rightarrow> (int \<times> pstr) option" where
  "is_letter_header line =
     (let stripped = strip line in
      if stripped = [] then None
      else if RE_TOC_ENTRY stripped then None
      else if RE_APPARATUS_ENTRY stripped then None
      else if RE_LETTER_91_HEADER stripped
        then Some (91, strip (re_sub RE_FOOTNOTE_MARKER [] stripped))
      else case RE_LETTER_HEADER stripped of
        None \<Rightarrow> None
      | Some (roman, g2) \<Rightarrow>
          (let title_raw = strip g2;
               title = rstrip_char 46 title_raw;
               num = roman_to_int roman
           in if 1 \<le> num \<and> num \<le> 124 then Some (num, title) else None))"

text \<open>
  A raw letter (the dictionary with the keys \<open>number\<close>, \<open>title\<close>, \<open>lines\<close>), and the
  variables of the loop of \<open>parse_letters\<close>. \<open>current_letter_num\<close> and \<open>current_title\<close>
  are only ever assigned together, from a header, so they are one optional pair
  \<open>current\<close>.
\<close>

record raw_letter =
  rl_number :: int
  rl_title :: pstr
  rl_lines :: "pstr list"

record letters_state =
  raw_letters :: "raw_letter list"
  current :: "(int \<times> pstr) option"
  current_lines :: "pstr list"

definition flush_letter :: "letters_state \<Rightarrow> raw_letter list" where
  "flush_letter st =
     (case current st of
        None \<Rightarrow> raw_letters st
      | Some (n, t) \<Rightarrow>
          raw_letters st @ [\<lparr>rl_number = n, rl_title = t, rl_lines = current_lines st\<rparr>])"

definition letters_step :: "letters_state \<Rightarrow> pstr \<Rightarrow> letters_state" where
  "letters_step st line =
     (let stripped = strip line in
      case is_letter_header stripped of
        Some header \<Rightarrow>
          \<lparr>raw_letters = flush_letter st, current = Some header, current_lines = []\<rparr>
      | None \<Rightarrow>
          if RE_SEPARATOR stripped then st
          else if current st \<noteq> None then st\<lparr>current_lines := current_lines st @ [line]\<rparr>
          else st)"

text \<open>One region: the loop over \<open>range(region_start, region_end)\<close>, then the flush.\<close>

definition parse_region :: "pstr list \<Rightarrow> raw_letter list \<Rightarrow> nat \<times> nat \<Rightarrow> raw_letter list" where
  "parse_region lines raw region =
     flush_letter
       (foldl letters_step \<lparr>raw_letters = raw, current = None, current_lines = []\<rparr>
          (map (\<lambda>idx. lines ! idx) [fst region..<snd region]))"

text \<open>\<open>parse_letters\<close>. \<open>lines[idx]\<close> raises \<open>IndexError\<close> when a region reaches beyond
  the lines; the list under construction is then lost.\<close>

definition parse_letters :: "pstr list \<Rightarrow> (nat \<times> nat) list \<Rightarrow> py_exn + raw_letter list" where
  "parse_letters lines regions =
     (if list_all (\<lambda>(region_start, region_end).
                     region_end \<le> region_start \<or> region_end \<le> length lines) regions
      then Inr (foldl (parse_region lines) [] regions)
      else Inl IndexError)"

subsection \<open>Text cleaning and the section records\<close>

text \<open>The patterns \<open>' {2,}'\<close> and \<open>'\n{3,}'\<close> of the two \<open>re.sub\<close> calls.\<close>

definition RE_SPACES2 :: "pstr \<Rightarrow> nat option" where
  "RE_SPACES2 s =
     (let k = length (takeWhile (\<lambda>c. c = SP) s) in if 2 \<le> k then Some k else None)"

definition RE_NEWLINES3 :: "pstr \<Rightarrow> nat option" where
  "RE_NEWLINES3 s =
     (let k = length (takeWhile (\<lambda>c. c = NL) s) in if 3 \<le> k then Some k else None)"

text \<open>The body of the loop of \<open>clean_letter_text\<close> on the pair \<open>(cleaned,
  in_footnotes)\<close>; every \<open>continue\<close> leaves the pair as it is.\<close>

definition clean_letter_step :: "pstr list \<times> bool \<Rightarrow> pstr \<Rightarrow> pstr list \<times> bool" where
  "clean_letter_step st line =
     (let cleaned = fst st; in_footnotes = snd st; stripped = strip line in
      if cleaned = [] \<and> stripped = [] then st
      else if RE_FOOTNOTE_LINE stripped then (cleaned, True)
      else if in_footnotes then
        (if stripped = [] then st
         else if RE_FOOTNOTE_LINE stripped then st
         else st)
      else
        (let line_clean = re_sub RE_FOOTNOTE_MARKER [] stripped;
             line_clean = strip (re_sub RE_SPACES2 [SP] line_clean)
         in (cleaned @ [line_clean], in_footnotes)))"

definition clean_letter_text :: "pstr list \<Rightarrow> int \<Rightarrow> pstr" where
  "clean_letter_text lines letter_num =
     (let cleaned = fst (foldl clean_letter_step ([], False) lines);
          text1 = join [NL] cleaned;
          text2 = re_sub RE_NEWLINES3 [NL, NL] text1
      in strip text2)"

text \<open>\<open>build_sections\<close> of the Letters: \<open>letter_section\<close> is the body of the loop,
  \<open>None\<close> where it skips the letter.\<close>

definition letter_section :: "raw_letter \<Rightarrow> out_section option" where
  "letter_section letter =
     (let num = rl_number letter;
          title = rl_title letter;
          txt = clean_letter_text (rl_lines letter) num
      in if txt = [] then None
         else Some
           \<lparr>s_id = str ''letters_'' @ fmt_0d 3 num,
            s_book = None, s_book_title = None, s_chapter = None, s_chapter_title = None,
            s_section = None,
            s_letter_number = Some num,
            s_letter_title = Some title,
            s_text = txt,
            s_word_count = length (split_ws txt),
            s_source_reference =
              str ''Letter '' @ int_to_roman num @ str '' ('' @ show_int num @ str '')''\<rparr>)"

definition build_sections_letters :: "raw_letter list \<Rightarrow> out_section list" where
  "build_sections_letters raw = List.map_filter letter_section raw"

text \<open>The duplicate check of \<open>validate\<close>: \<open>found_nums\<close> and \<open>duplicate\<close>.\<close>

definition validate_duplicate :: "out_section list \<Rightarrow> int option list" where
  "validate_duplicate sections =
     (let found_nums = sort (map s_letter_number sections)
      in filter (\<lambda>n. count_list found_nums n > 1) found_nums)"

text \<open>The pipeline of \<open>main\<close>: the regions, \<open>parse_letters\<close>, then \<open>build_sections\<close>.\<close>

definition letters_sections :: "pstr list \<Rightarrow> py_exn + out_section list" where
  "letters_sections lines =
     (case parse_letters lines (find_letter_regions lines) of
        Inl e \<Rightarrow> Inl e
      | Inr raw \<Rightarrow> Inr (build_sections_letters raw))"

section \<open>The text normalizer \<open>clean_text\<close> (parser\_discourses.py, parser\_meditations.py)\<close>

text \<open>
  The patterns of the substitutions: \<open>RE_FOOTNOTE_REF = \s*\[\*[a-z0-9\-]+\]\<close>,
  \<open>RE_INLINE_PAGE = \[p\.\s*\d+\]\<close> and \<open>[^\S\n]+\<close> (whitespace other than the
  newline); each gives the length of the match at the start of the text. The asterisk is
  42, the hyphen 45, \<open>[\<close> is 91 and \<open>]\<close> is 93.
\<close>

definition is_ref_char :: "pchar \<Rightarrow> bool" where
  "is_ref_char c = (is_az c \<or> (48 \<le> c \<and> c \<le> 57) \<or> c = 45)"

definition RE_FOOTNOTE_REF :: "pstr \<Rightarrow> nat option" where
  "RE_FOOTNOTE_REF s =
     (case lit [91, 42] (dropWhile isspace s) of
        None \<Rightarrow> None
      | Some r \<Rightarrow>
          if takeWhile is_ref_char r \<noteq> [] \<and> startswith (dropWhile is_ref_char r) [93]
          then Some (length (takeWhile isspace s) + 2 + length (takeWhile is_ref_char r) + 1)
          else None)"

definition RE_INLINE_PAGE :: "pstr \<Rightarrow> nat option" where
  "RE_INLINE_PAGE s =
     (case lit (str ''[p.'') s of
        None \<Rightarrow> None
      | Some r \<Rightarrow>
          if takeWhile isdigit (dropWhile isspace r) \<noteq> [] \<and>
             startswith (dropWhile isdigit (dropWhile isspace r)) [93]
          then Some (3 + length (takeWhile isspace r) +
                     length (takeWhile isdigit (dropWhile isspace r)) + 1)
          else None)"

definition is_hspace :: "pchar \<Rightarrow> bool" where
  "is_hspace c = (isspace c \<and> c \<noteq> NL)"

definition RE_HSPACE :: "pstr \<Rightarrow> nat option" where
  "RE_HSPACE s =
     (let k = length (takeWhile is_hspace s) in if 1 \<le> k then Some k else None)"

text \<open>\<open>clean_text\<close> of parser\_meditations.py, statement by statement.\<close>

definition clean_text_meditations :: "pstr \<Rightarrow> pstr" where
  "clean_text_meditations t =
     (let t1 = replace [CR] [NL] (replace [CR, NL] [NL] t);
          t2 = re_sub RE_NEWLINES3 [NL, NL] t1;
          t3 = re_sub RE_HSPACE [SP] t2;
          t4 = join [NL] (map strip (split_on NL t3))
      in strip t4)"

text \<open>\<open>clean_text\<close> of parser\_discourses.py: the two marker substitutions, then the
  same statements.\<close>

definition clean_text_discourses :: "pstr \<Rightarrow> pstr" where
  "clean_text_discourses t =
     (let t01 = re_sub RE_FOOTNOTE_REF [] t;
          t02 = re_sub RE_INLINE_PAGE [] t01;
          t1 = replace [CR] [NL] (replace [CR, NL] [NL] t02);
          t2 = re_sub RE_NEWLINES3 [NL, NL] t1;
          t3 = re_sub RE_HSPACE [SP] t2;
          t4 = join [NL] (map strip (split_on NL t3))
      in strip t4)"

section \<open>The Discourses (parser\_discourses.py)\<close>

subsection \<open>Line patterns\<close>

text \<open>The names that another parser also uses carry the suffix \<open>_discourses\<close>.
  \<open>RE_BOOK_HEADER = ^BOOK ([IVX]+)$\<close> and \<open>RE_CHAPTER_HEADER = ^CHAPTER ([IVXLC]+)$\<close>
  give their group 1.\<close>

definition RE_BOOK_HEADER_discourses :: "pstr \<Rightarrow> pstr option" where
  "RE_BOOK_HEADER_discourses s =
     (case lit (str ''BOOK '') s of
        None \<Rightarrow> None
      | Some r \<Rightarrow>
          if takeWhile is_IVX r \<noteq> [] \<and> at_dollar (dropWhile is_IVX r)
          then Some (takeWhile is_IVX r) else None)"

definition RE_CHAPTER_HEADER_discourses :: "pstr \<Rightarrow> pstr option" where
  "RE_CHAPTER_HEADER_discourses s =
     (case lit (str ''CHAPTER '') s of
        None \<Rightarrow> None
      | Some r \<Rightarrow>
          if takeWhile is_IVXLC r \<noteq> [] \<and> at_dollar (dropWhile is_IVXLC r)
          then Some (takeWhile is_IVXLC r) else None)"

text \<open>\<open>RE_PAGE_MARKER = ^\[p\.\s*\d+\]$\<close>.\<close>

definition RE_PAGE_MARKER :: "pstr \<Rightarrow> bool" where
  "RE_PAGE_MARKER s =
     (case lit (str ''[p.'') s of
        None \<Rightarrow> False
      | Some r \<Rightarrow>
          takeWhile isdigit (dropWhile isspace r) \<noteq> [] \<and>
          (case lit [93] (dropWhile isdigit (dropWhile isspace r)) of
             None \<Rightarrow> False
           | Some r' \<Rightarrow> at_dollar r'))"

text \<open>\<open>RE_SACRED_TEXTS_HEADER =
  ^The Discourses of Epictetus, tr\. by P\.E\.? Matheson\<close>.\<close>

definition RE_SACRED_TEXTS_HEADER :: "pstr \<Rightarrow> bool" where
  "RE_SACRED_TEXTS_HEADER s =
     (case lit (str ''The Discourses of Epictetus, tr. by P.E'') s of
        None \<Rightarrow> False
      | Some r \<Rightarrow> startswith r (str ''. Matheson'') \<or> startswith r (str '' Matheson''))"

text \<open>\<open>RE_NOTE_LINE = ^\^[a-z0-9]+-\d+\<close> (the caret is 94).\<close>

definition is_az09 :: "pchar \<Rightarrow> bool" where
  "is_az09 c = (is_az c \<or> (48 \<le> c \<and> c \<le> 57))"

definition RE_NOTE_LINE :: "pstr \<Rightarrow> bool" where
  "RE_NOTE_LINE s =
     (case lit [94] s of
        None \<Rightarrow> False
      | Some r \<Rightarrow>
          takeWhile is_az09 r \<noteq> [] \<and>
          (case lit [45] (dropWhile is_az09 r) of
             None \<Rightarrow> False
           | Some r' \<Rightarrow> takeWhile isdigit r' \<noteq> []))"

text \<open>\<open>RE_NOTES_HEADER = ^Book [IVX]+\.?\s*Notes\.?$\<close>. \<open>opt_dot\<close> is \<open>\.?\<close>: the
  full stop is taken when it is there.\<close>

definition opt_dot :: "pstr \<Rightarrow> pstr" where
  "opt_dot r = (case r of [] \<Rightarrow> [] | c # cs \<Rightarrow> if c = 46 then cs else c # cs)"

definition RE_NOTES_HEADER :: "pstr \<Rightarrow> bool" where
  "RE_NOTES_HEADER s =
     (case lit (str ''Book '') s of
        None \<Rightarrow> False
      | Some r \<Rightarrow>
          takeWhile is_IVX r \<noteq> [] \<and>
          (case lit (str ''Notes'') (dropWhile isspace (opt_dot (dropWhile is_IVX r))) of
             None \<Rightarrow> False
           | Some r' \<Rightarrow> at_dollar (opt_dot r')))"

text \<open>\<open>RE_DISCOURSES_SEPARATOR = ^The Discourses\.$\<close>, \<open>RE_PREFACE = ^PREFACE$\<close>,
  \<open>RE_PREFACE_SUBTITLE = ^ARRIANUS TO LUCIUS GELLIUS GREETING$\<close>.\<close>

definition RE_DISCOURSES_SEPARATOR :: "pstr \<Rightarrow> bool" where
  "RE_DISCOURSES_SEPARATOR s =
     (case lit (str ''The Discourses.'') s of None \<Rightarrow> False | Some r \<Rightarrow> at_dollar r)"

definition RE_PREFACE :: "pstr \<Rightarrow> bool" where
  "RE_PREFACE s = (case lit (str ''PREFACE'') s of None \<Rightarrow> False | Some r \<Rightarrow> at_dollar r)"

definition RE_PREFACE_SUBTITLE :: "pstr \<Rightarrow> bool" where
  "RE_PREFACE_SUBTITLE s =
     (case lit (str ''ARRIANUS TO LUCIUS GELLIUS GREETING'') s of
        None \<Rightarrow> False
      | Some r \<Rightarrow> at_dollar r)"

text \<open>The marker \<open>\[\*[a-z0-9\-]+\]\<close> at the start of the text (its length), and the
  common end \<open>\s*(\[\*[a-z0-9\-]+\])?\s*$\<close> of four patterns: whitespace, an optional
  marker, whitespace up to the end.\<close>

definition ref_marker :: "pstr \<Rightarrow> nat option" where
  "ref_marker s =
     (case lit [91, 42] s of
        None \<Rightarrow> None
      | Some r \<Rightarrow>
          if takeWhile is_ref_char r \<noteq> [] \<and> startswith (dropWhile is_ref_char r) [93]
          then Some (2 + length (takeWhile is_ref_char r) + 1)
          else None)"

definition ref_ws_end :: "pstr \<Rightarrow> bool" where
  "ref_ws_end r =
     (let r' = dropWhile isspace r in
      case ref_marker r' of
        Some k \<Rightarrow> list_all isspace (drop k r') \<or> list_all isspace r'
      | None \<Rightarrow> list_all isspace r')"

text \<open>\<open>RE_FRAGMENTS_HEADER = ^FRAGMENTS\s*(\[\*[a-z0-9\-]+\])?\s*$\<close>,
  \<open>RE_MANUAL_HEADER =
  ^THE MANUAL \[ENCHIRIDION\] OF EPICTETUS\s*(\[\*[a-z0-9\-]+\])?\s*$\<close>,
  \<open>RE_INDEX_HEADER = ^SUBJECT INDEX TO THE DISCOURSES\<close>.\<close>

definition RE_FRAGMENTS_HEADER :: "pstr \<Rightarrow> bool" where
  "RE_FRAGMENTS_HEADER s =
     (case lit (str ''FRAGMENTS'') s of None \<Rightarrow> False | Some r \<Rightarrow> ref_ws_end r)"

definition RE_MANUAL_HEADER :: "pstr \<Rightarrow> bool" where
  "RE_MANUAL_HEADER s =
     (case lit (str ''THE MANUAL [ENCHIRIDION] OF EPICTETUS'') s of
        None \<Rightarrow> False
      | Some r \<Rightarrow> ref_ws_end r)"

definition RE_INDEX_HEADER_discourses :: "pstr \<Rightarrow> bool" where
  "RE_INDEX_HEADER_discourses s = startswith s (str ''SUBJECT INDEX TO THE DISCOURSES'')"

text \<open>\<open>RE_FRAGMENT_NUMBER = ^(\d+[a-z]?)\s*(?:\[\*[a-z0-9\-]+\])?\s*$\<close> and
  \<open>RE_MANUAL_SECTION_NUMBER = ^(\d+)\s*(?:\[\*[a-z0-9\-]+\])?\s*$\<close> give their
  group 1; \<open>RE_FRAGMENT_1_ROMAN = ^I$\<close>; \<open>RE_FRAGMENT_TITLE = ^(FROM |RUFUS:)\<close>.\<close>

definition RE_FRAGMENT_NUMBER :: "pstr \<Rightarrow> pstr option" where
  "RE_FRAGMENT_NUMBER s =
     (let ds = takeWhile isdigit s; r = dropWhile isdigit s in
      if ds = [] then None
      else case r of
        [] \<Rightarrow> if ref_ws_end [] then Some ds else None
      | c # cs \<Rightarrow>
          if is_az c then (if ref_ws_end cs then Some (ds @ [c]) else None)
          else if ref_ws_end (c # cs) then Some ds else None)"

definition RE_FRAGMENT_1_ROMAN :: "pstr \<Rightarrow> bool" where
  "RE_FRAGMENT_1_ROMAN s = (case lit [73] s of None \<Rightarrow> False | Some r \<Rightarrow> at_dollar r)"

definition RE_FRAGMENT_TITLE :: "pstr \<Rightarrow> bool" where
  "RE_FRAGMENT_TITLE s = (startswith s (str ''FROM '') \<or> startswith s (str ''RUFUS:''))"

definition RE_MANUAL_SECTION_NUMBER :: "pstr \<Rightarrow> pstr option" where
  "RE_MANUAL_SECTION_NUMBER s =
     (if takeWhile isdigit s \<noteq> [] \<and> ref_ws_end (dropWhile isdigit s)
      then Some (takeWhile isdigit s) else None)"

text \<open>\<open>is_noise_line\<close>.\<close>

definition is_noise_line :: "pstr \<Rightarrow> bool" where
  "is_noise_line line =
     (let stripped = strip line in
      if RE_PAGE_MARKER stripped then True
      else if RE_SACRED_TEXTS_HEADER stripped then True
      else False)"

subsection \<open>\<open>parse_discourses\<close>\<close>

text \<open>
  Phase 1, the \<open>while\<close> loop that looks for the anchors: \<open>find_bounds lines i
  preface_start book1_start\<close> runs it from index \<open>i\<close> and gives \<open>(preface_start,
  book1_start, content_end)\<close> as they stand when the loop ends. \<open>notes_iv_ahead\<close> is the
  inner \<open>for\<close> loop over the next four lines.
\<close>

definition notes_iv_ahead :: "pstr list \<Rightarrow> nat \<Rightarrow> bool" where
  "notes_iv_ahead lines i =
     list_ex (\<lambda>j. RE_NOTES_HEADER (strip (lines ! j)) \<and> contains (lines ! j) (str ''IV''))
       [i + 1..<min (i + 5) (length lines)]"

function find_bounds ::
  "pstr list \<Rightarrow> nat \<Rightarrow> nat option \<Rightarrow> nat option \<Rightarrow> nat option \<times> nat option \<times> nat option" where
  "find_bounds lines i preface_start book1_start =
     (if i < length lines then
        (let stripped = strip (lines ! i);
             preface_start' =
               (if RE_PREFACE stripped \<and> preface_start = None then Some i else preface_start);
             book1_start' =
               (if stripped = str ''BOOK I'' \<and> book1_start = None then Some i else book1_start)
         in if RE_NOTES_HEADER stripped \<and> contains stripped (str ''IV'')
              then (preface_start', book1_start', Some i)
            else if RE_DISCOURSES_SEPARATOR stripped \<and> notes_iv_ahead lines i
              then (preface_start', book1_start', Some i)
            else find_bounds lines (i + 1) preface_start' book1_start')
      else (preface_start, book1_start, None))"
  by pat_completeness auto
termination
  by (relation "measure (\<lambda>(lines, i, p, b). length lines - i)") auto

declare find_bounds.simps [simp del]


text \<open>Phase 3: a raw chapter (the dictionary with the keys \<open>book_num\<close>, \<open>chapter_num\<close>,
  \<open>chapter_title\<close>, \<open>lines\<close>), the variables of the loop, and its body.\<close>

record raw_chapter =
  ch_book_num :: int
  ch_chapter_num :: int
  ch_chapter_title :: "pstr option"
  ch_lines :: "pstr list"

record discourses_state =
  chapters :: "raw_chapter list"
  current_book :: "int option"
  current_chapter_num :: "int option"
  current_chapter_title :: "pstr option"
  current_chapter_lines :: "pstr list"
  awaiting_title :: bool
  in_notes :: bool

definition save_chapter :: "discourses_state \<Rightarrow> raw_chapter list" where
  "save_chapter st =
     (case current_chapter_num st of
        None \<Rightarrow> chapters st
      | Some cn \<Rightarrow>
          (case current_book st of
             None \<Rightarrow> chapters st
           | Some bk \<Rightarrow>
               chapters st @
                 [\<lparr>ch_book_num = bk, ch_chapter_num = cn,
                   ch_chapter_title = current_chapter_title st,
                   ch_lines = current_chapter_lines st\<rparr>]))"

definition discourses_step :: "discourses_state \<Rightarrow> pstr \<Rightarrow> discourses_state" where
  "discourses_step st line =
     (let stripped = strip line in
      if is_noise_line line then st
      else if RE_NOTES_HEADER stripped \<or> RE_DISCOURSES_SEPARATOR stripped
        then st\<lparr>in_notes := True\<rparr>
      else if RE_NOTE_LINE stripped then st\<lparr>in_notes := True\<rparr>
      else case RE_BOOK_HEADER_discourses stripped of
        Some bm \<Rightarrow>
          \<lparr>chapters = save_chapter st,
           current_book = Some (roman_to_int bm),
           current_chapter_num = None,
           current_chapter_title = None,
           current_chapter_lines = [],
           awaiting_title = False,
           in_notes = False\<rparr>
      | None \<Rightarrow>
          if in_notes st then st
          else case RE_CHAPTER_HEADER_discourses stripped of
            Some cm \<Rightarrow>
              st\<lparr>chapters := save_chapter st,
                 current_chapter_num := Some (roman_to_int cm),
                 current_chapter_title := None,
                 current_chapter_lines := [],
                 awaiting_title := True\<rparr>
          | None \<Rightarrow>
              if awaiting_title st then
                (if stripped \<noteq> []
                 then st\<lparr>current_chapter_title := Some stripped, awaiting_title := False\<rparr>
                 else st)
              else if current_chapter_num st \<noteq> None
                then st\<lparr>current_chapter_lines := current_chapter_lines st @ [stripped]\<rparr>
              else st)"



subsection \<open>\<open>parse_fragments\<close> and \<open>parse_manual\<close>\<close>


text \<open>A raw fragment (keys \<open>number\<close>, a string, \<open>title\<close>, \<open>lines\<close>), the loop variables and
  the loop body. \<open>str.isupper\<close> rests on the case tables of Unicode, which are not part
  of the program: it is the parameter \<open>isupper\<close>.\<close>

record raw_fragment =
  fr_number :: pstr
  fr_title :: "pstr option"
  fr_lines :: "pstr list"







record raw_manual =
  ms_number :: int
  ms_lines :: "pstr list"






subsection \<open>\<open>build_sections\<close> and \<open>main\<close> of the Discourses\<close>

definition BOOK_TITLES :: "int \<Rightarrow> pstr option" where
  "BOOK_TITLES =
     map_of [(1, str ''Book I''), (2, str ''Book II''), (3, str ''Book III''), (4, str ''Book IV'')]"

definition preface_section :: "pstr \<Rightarrow> out_section list" where
  "preface_section preface_text =
     (if preface_text = [] then []
      else [\<lparr>s_id = str ''discourses_preface'',
             s_book = None, s_book_title = Some (str ''Preface''),
             s_chapter = None,
             s_chapter_title = Some (str ''Arrianus to Lucius Gellius Greeting''),
             s_section = None, s_letter_number = None, s_letter_title = None,
             s_text = preface_text,
             s_word_count = length (split_ws preface_text),
             s_source_reference = str ''Preface''\<rparr>])"

definition chapter_section :: "raw_chapter \<Rightarrow> out_section option" where
  "chapter_section ch =
     (let txt = clean_text_discourses (join [NL] (ch_lines ch)) in
      if txt = [] then None
      else
        (let bk = ch_book_num ch; cn = ch_chapter_num ch in
         Some
           \<lparr>s_id = str ''discourses_b'' @ show_int bk @ str ''_c'' @ show_int cn,
            s_book = Some bk, s_book_title = BOOK_TITLES bk,
            s_chapter = Some cn, s_chapter_title = ch_chapter_title ch,
            s_section = None, s_letter_number = None, s_letter_title = None,
            s_text = txt,
            s_word_count = length (split_ws txt),
            s_source_reference =
              str ''Book '' @ int_to_roman bk @ str '', Chapter '' @ int_to_roman cn\<rparr>))"

definition fragment_section :: "raw_fragment \<Rightarrow> out_section option" where
  "fragment_section frag =
     (let txt = clean_text_discourses (join [NL] (fr_lines frag)) in
      if txt = [] then None
      else Some
        \<lparr>s_id = str ''discourses_frag_'' @ fr_number frag,
         s_book = None, s_book_title = Some (str ''Fragments''),
         s_chapter = None, s_chapter_title = fr_title frag,
         s_section = None, s_letter_number = None, s_letter_title = None,
         s_text = txt,
         s_word_count = length (split_ws txt),
         s_source_reference = str ''Fragment '' @ fr_number frag\<rparr>)"

definition manual_section :: "raw_manual \<Rightarrow> out_section option" where
  "manual_section sec =
     (let txt = clean_text_discourses (join [NL] (ms_lines sec)) in
      if txt = [] then None
      else Some
        \<lparr>s_id = str ''enchiridion_s'' @ show_int (ms_number sec),
         s_book = None, s_book_title = Some (str ''The Manual (Enchiridion)''),
         s_chapter = Some (ms_number sec), s_chapter_title = None,
         s_section = None, s_letter_number = None, s_letter_title = None,
         s_text = txt,
         s_word_count = length (split_ws txt),
         s_source_reference = str ''Enchiridion, Section '' @ show_int (ms_number sec)\<rparr>)"

definition build_sections_discourses ::
  "pstr \<Rightarrow> raw_chapter list \<Rightarrow> raw_fragment list \<Rightarrow> raw_manual list \<Rightarrow> out_section list" where
  "build_sections_discourses preface_text chs frags manual_sections =
     preface_section preface_text @
     List.map_filter chapter_section chs @
     List.map_filter fragment_section frags @
     List.map_filter manual_section manual_sections"

text \<open>
  The outcome of a run of \<open>main\<close> on the lines of the input file: the exit status of the
  process, the messages logged at error level, and the sections of the JSON document
  written (\<open>None\<close> when no file is written). The metadata block is constant but for the
  date and is left out, as is what \<open>validate\<close> and \<open>print_sample\<close> print; of \<open>validate\<close>
  the model keeps that \<open>min\<close> of the word counts raises \<open>ValueError\<close> when there is no
  section, which ends the run with status 1 before the file is written. An exception
  that nothing catches ends the run with a traceback, not with a logged message.
\<close>

record run_result =
  exit_status :: int
  error_log :: "pstr list"
  written :: "out_section list option"

text \<open>The exit status of the process when the exception is not caught: the argument of
  \<open>sys.exit\<close>, and 1 for any other exception.\<close>

definition exn_status :: "py_exn \<Rightarrow> int" where
  "exn_status e =
     (case e of SystemExit n \<Rightarrow> n | IndexError \<Rightarrow> 1 | KeyError \<Rightarrow> 1 | ValueError \<Rightarrow> 1)"


section \<open>The Meditations (parser\_meditations.py)\<close>





definition RE_COLOPHON_BOOK1 :: "pstr \<Rightarrow> bool" where
  "RE_COLOPHON_BOOK1 s =
     (case lit (str ''Among the Quadi at the Granua.'') s of
        None \<Rightarrow> False
      | Some r \<Rightarrow> list_all isspace r)"

definition RE_COLOPHON_BOOK2 :: "pstr \<Rightarrow> bool" where
  "RE_COLOPHON_BOOK2 s =
     (case lit (str ''This in Carnuntum.'') s of
        None \<Rightarrow> False
      | Some r \<Rightarrow> list_all isspace r)"


definition BOOK_WORD_TO_TITLE :: "int \<Rightarrow> pstr option" where
  "BOOK_WORD_TO_TITLE =
     map_of [(1, str ''Book One''), (2, str ''Book Two''), (3, str ''Book Three''),
             (4, str ''Book Four''), (5, str ''Book Five''), (6, str ''Book Six''),
             (7, str ''Book Seven''), (8, str ''Book Eight''), (9, str ''Book Nine''),
             (10, str ''Book Ten''), (11, str ''Book Eleven''), (12, str ''Book Twelve'')]"








text \<open>\<open>split_book_into_sections\<close>: the paragraph loop on the pair \<open>(sections,
  current_paragraph_lines)\<close>, the flush, and the two colophon blocks.\<close>

definition paragraph_step :: "pstr list \<times> pstr list \<Rightarrow> pstr \<Rightarrow> pstr list \<times> pstr list" where
  "paragraph_step st line =
     (let sections = fst st; current_paragraph_lines = snd st; stripped = strip line in
      if stripped = [] then
        (if current_paragraph_lines \<noteq> []
         then (sections @ [join [NL] current_paragraph_lines], [])
         else st)
      else (sections, current_paragraph_lines @ [stripped]))"

definition attach_colophon :: "(pstr \<Rightarrow> bool) \<Rightarrow> pstr list \<Rightarrow> pstr list" where
  "attach_colophon re sections =
     (if re (strip (last sections)) then
        (let colophon = last sections; sections' = butlast sections in
         if sections' \<noteq> []
         then butlast sections' @ [last sections' @ [NL, NL] @ colophon]
         else sections' @ [colophon])
      else sections)"

definition split_book_into_sections :: "int \<Rightarrow> pstr list \<Rightarrow> pstr list" where
  "split_book_into_sections book_num lines =
     (let st = foldl paragraph_step ([], []) lines;
          sections = (if snd st \<noteq> [] then fst st @ [join [NL] (snd st)] else fst st);
          sections1 =
            (if book_num = 1 \<and> sections \<noteq> [] then attach_colophon RE_COLOPHON_BOOK1 sections
             else sections);
          sections2 =
            (if book_num = 2 \<and> sections1 \<noteq> [] then attach_colophon RE_COLOPHON_BOOK2 sections1
             else sections1)
      in sections2)"

text \<open>\<open>build_sections\<close> of the Meditations: \<open>meditation_section\<close> is the body of the
  inner loop, on a pair of \<open>enumerate(raw_sections, start=1)\<close>.\<close>

definition meditation_section :: "int \<Rightarrow> nat \<times> pstr \<Rightarrow> out_section option" where
  "meditation_section book_num entry =
     (let sec_idx = int (fst entry); txt = clean_text_meditations (snd entry) in
      if txt = [] then None
      else Some
        \<lparr>s_id = str ''meditations_b'' @ show_int book_num @ str ''_s'' @ show_int sec_idx,
         s_book = Some book_num, s_book_title = BOOK_WORD_TO_TITLE book_num,
         s_chapter = None, s_chapter_title = None,
         s_section = Some sec_idx, s_letter_number = None, s_letter_title = None,
         s_text = txt,
         s_word_count = length (split_ws txt),
         s_source_reference =
           str ''Book '' @ show_int book_num @ str '', Section '' @ show_int sec_idx\<rparr>)"

definition build_sections_meditations :: "(int \<times> pstr list) list \<Rightarrow> out_section list" where
  "build_sections_meditations bks =
     concat (map (\<lambda>(book_num, book_lines).
                    List.map_filter (meditation_section book_num)
                      (enumerate 1 (split_book_into_sections book_num book_lines))) bks)"


section \<open>On the Shortness of Life (parser\_shortness.py)\<close>

text \<open>
  \<open>RE_CHAPTER_HEADER = ^(\d+)\.\s*(.*)\<close> gives its groups 1 and 2 (\<open>.\<close> matches any
  character but the newline); \<open>RE_FOOTNOTES_HEADER = ^Footnotes\s*$\<close>.
  \<open>RE_FOOTNOTE_LINE\<close> and \<open>RE_FOOTNOTE_MARKER\<close> are those of the Letters.
\<close>

definition RE_CHAPTER_HEADER_shortness :: "pstr \<Rightarrow> (pstr \<times> pstr) option" where
  "RE_CHAPTER_HEADER_shortness s =
     (if takeWhile isdigit s = [] then None
      else case lit [46] (dropWhile isdigit s) of
        None \<Rightarrow> None
      | Some r \<Rightarrow>
          Some (takeWhile isdigit s, takeWhile (\<lambda>c. c \<noteq> NL) (dropWhile isspace r)))"

definition RE_FOOTNOTES_HEADER :: "pstr \<Rightarrow> bool" where
  "RE_FOOTNOTES_HEADER s =
     (case lit (str ''Footnotes'') s of None \<Rightarrow> False | Some r \<Rightarrow> list_all isspace r)"

text \<open>\<open>find_content_start\<close>: \<open>content_start_loop lines i\<close> is its \<open>for\<close> loop on the
  lines from index \<open>i\<close> on, which returns an index, ends without one, or is ended by
  \<open>int\<close>; the result pairs the messages logged at error level with the index or the
  exception.\<close>

fun content_start_loop :: "pstr list \<Rightarrow> nat \<Rightarrow> py_exn + nat option" where
  "content_start_loop [] i = Inr None"
| "content_start_loop (line # rest) i =
     (let stripped = strip line in
      case RE_CHAPTER_HEADER_shortness stripped of
        None \<Rightarrow> content_start_loop rest (i + 1)
      | Some m \<Rightarrow>
          (case int_of_digits (fst m) of
             Inl e \<Rightarrow> Inl e
           | Inr num \<Rightarrow> if num = 1 then Inr (Some i) else content_start_loop rest (i + 1)))"

definition find_content_start :: "pstr list \<Rightarrow> pstr list \<times> (py_exn + nat)" where
  "find_content_start lines =
     (case content_start_loop lines 0 of
        Inl e \<Rightarrow> ([], Inl e)
      | Inr (Some i) \<Rightarrow> ([], Inr i)
      | Inr None \<Rightarrow> ([str ''Could not find the start of chapter 1.''], Inl (SystemExit 1)))"

text \<open>\<open>parse_chapters\<close>: a raw chapter (keys \<open>number\<close>, \<open>first_line_text\<close>, \<open>lines\<close>), the
  loop variables (\<open>current_num\<close> and \<open>current_first_line_text\<close> are assigned together and
  are one optional pair \<open>c_current\<close>) and the loop body.\<close>

record raw_short_chapter =
  sc_number :: int
  sc_first_line_text :: pstr
  sc_lines :: "pstr list"

record chapters_state =
  raw_chapters :: "raw_short_chapter list"
  c_current :: "(int \<times> pstr) option"
  c_current_lines :: "pstr list"
  c_in_footnotes :: bool

definition save_short_chapter :: "chapters_state \<Rightarrow> raw_short_chapter list" where
  "save_short_chapter st =
     (case c_current st of
        None \<Rightarrow> raw_chapters st
      | Some (n, t) \<Rightarrow>
          raw_chapters st @
            [\<lparr>sc_number = n, sc_first_line_text = t, sc_lines = c_current_lines st\<rparr>])"

text \<open>The test of both branches of the loop body: the header of a chapter from 1 to 20
  (its number and the text after it), no such header, or the exception of \<open>int\<close>.\<close>

definition chapter_header_1_20 :: "pstr \<Rightarrow> py_exn + (int \<times> pstr) option" where
  "chapter_header_1_20 stripped =
     (case RE_CHAPTER_HEADER_shortness stripped of
        None \<Rightarrow> Inr None
      | Some m \<Rightarrow>
          (case int_of_digits (fst m) of
             Inl e \<Rightarrow> Inl e
           | Inr num \<Rightarrow> if 1 \<le> num \<and> num \<le> 20 then Inr (Some (num, snd m)) else Inr None))"

definition chapters_step :: "chapters_state \<Rightarrow> pstr \<Rightarrow> py_exn + chapters_state" where
  "chapters_step st line =
     (let stripped = strip line in
      if RE_FOOTNOTES_HEADER stripped then Inr (st\<lparr>c_in_footnotes := True\<rparr>)
      else if c_in_footnotes st then
        (case chapter_header_1_20 stripped of
           Inl e \<Rightarrow> Inl e
         | Inr (Some header) \<Rightarrow>
             Inr \<lparr>raw_chapters = save_short_chapter st, c_current = Some header,
                  c_current_lines = [], c_in_footnotes = False\<rparr>
         | Inr None \<Rightarrow> Inr st)
      else
        (case chapter_header_1_20 stripped of
           Inl e \<Rightarrow> Inl e
         | Inr (Some header) \<Rightarrow>
             Inr (st\<lparr>raw_chapters := save_short_chapter st, c_current := Some header,
                     c_current_lines := []\<rparr>)
         | Inr None \<Rightarrow>
             if c_current st \<noteq> None \<and> \<not> c_in_footnotes st
             then Inr (st\<lparr>c_current_lines := c_current_lines st @ [line]\<rparr>)
             else Inr st))"

definition parse_chapters :: "pstr list \<Rightarrow> nat \<Rightarrow> py_exn + raw_short_chapter list" where
  "parse_chapters lines start_idx =
     (case foldl_exn chapters_step
             \<lparr>raw_chapters = [], c_current = None, c_current_lines = [],
              c_in_footnotes = False\<rparr>
             (map (\<lambda>i. lines ! i) [start_idx..<length lines]) of
        Inl e \<Rightarrow> Inl e
      | Inr st \<Rightarrow> Inr (save_short_chapter st))"

text \<open>\<open>clean_chapter_text\<close>: the lines up to the first footnote line, without the empty
  lines at both ends; then the paragraph loop on the pair \<open>(paragraphs, current_para)\<close>.\<close>

definition para_step :: "pstr list \<times> pstr list \<Rightarrow> pstr \<Rightarrow> pstr list \<times> pstr list" where
  "para_step st line =
     (let paragraphs = fst st; current_para = snd st in
      if line = [] then
        (if current_para \<noteq> [] then (paragraphs @ [join [SP] current_para], []) else st)
      else
        (let cleaned = re_sub RE_FOOTNOTE_MARKER [] line;
             cleaned = strip (re_sub RE_SPACES2 [SP] cleaned)
         in if cleaned \<noteq> [] then (paragraphs, current_para @ [cleaned]) else st))"

definition clean_chapter_text :: "pstr \<Rightarrow> pstr list \<Rightarrow> pstr" where
  "clean_chapter_text first_line_text lines =
     (let all_lines =
            (if first_line_text \<noteq> [] then [first_line_text] else []) @
            map strip
              (takeWhile (\<lambda>line. \<not> RE_FOOTNOTES_HEADER (strip line) \<and>
                                  \<not> RE_FOOTNOTE_LINE (strip line)) lines);
          all_lines1 = rev (dropWhile (\<lambda>l. l = []) (rev all_lines));
          all_lines2 = dropWhile (\<lambda>l. l = []) all_lines1;
          st = foldl para_step ([], []) all_lines2;
          paragraphs = (if snd st \<noteq> [] then fst st @ [join [SP] (snd st)] else fst st)
      in join [NL, NL] paragraphs)"

definition short_chapter_section :: "raw_short_chapter \<Rightarrow> out_section option" where
  "short_chapter_section chapter =
     (let num = sc_number chapter;
          txt = clean_chapter_text (sc_first_line_text chapter) (sc_lines chapter)
      in if txt = [] then None
         else Some
           \<lparr>s_id = str ''shortness_ch'' @ fmt_0d 2 num,
            s_book = None, s_book_title = None,
            s_chapter = Some num, s_chapter_title = None,
            s_section = None, s_letter_number = None, s_letter_title = None,
            s_text = txt,
            s_word_count = length (split_ws txt),
            s_source_reference = str ''Chapter '' @ show_int num\<rparr>)"

definition build_sections_shortness :: "raw_short_chapter list \<Rightarrow> out_section list" where
  "build_sections_shortness raw = List.map_filter short_chapter_section raw"

text \<open>\<open>main\<close> of On the Shortness of Life; \<open>validate\<close> raises \<open>ValueError\<close> when there
  is no section.\<close>

definition main_shortness :: "pstr list \<Rightarrow> bool \<Rightarrow> run_result" where
  "main_shortness all_lines dry_run =
     (case find_content_start all_lines of
        (logged, Inl e) \<Rightarrow> \<lparr>exit_status = exn_status e, error_log = logged, written = None\<rparr>
      | (logged, Inr content_start) \<Rightarrow>
          (case parse_chapters all_lines content_start of
             Inl e \<Rightarrow> \<lparr>exit_status = exn_status e, error_log = logged, written = None\<rparr>
           | Inr raw \<Rightarrow>
               if dry_run then \<lparr>exit_status = 0, error_log = logged, written = None\<rparr>
               else
                 (let sections = build_sections_shortness raw in
                  if sections = []
                  then \<lparr>exit_status = exn_status ValueError, error_log = logged,
                        written = None\<rparr>
                  else \<lparr>exit_status = 0, error_log = logged, written = Some sections\<rparr>)))"

chapter \<open>Notions and sample inputs for the statements\<close>

section \<open>For the Roman numerals\<close>

text \<open>The round trip at one number, as a test that can be evaluated.\<close>

definition roman_round_trips :: "int \<Rightarrow> bool" where
  "roman_round_trips n =
     (roman_to_int (int_to_roman n) = n \<and>
      list_all (\<lambda>c. c \<in> set (str ''IVXLCDM'')) (int_to_roman n))"

section \<open>For the Letters\<close>

text \<open>The fixed title of letter 91.\<close>

definition LYONS :: pstr where
  "LYONS = str ''ON THE LESSON TO BE DRAWN FROM THE BURNING OF LYONS''"

text \<open>\<open>header_numbers\<close> lists the letter numbers of the header lines inside the
  regions, in document order.\<close>

definition header_numbers :: "pstr list \<Rightarrow> (nat \<times> nat) list \<Rightarrow> int list" where
  "header_numbers lines regions =
     concat (map (\<lambda>region.
        map fst (List.map_filter (\<lambda>idx. is_letter_header (strip (lines ! idx)))
                   [fst region..<snd region])) regions)"

text \<open>Two small inputs for the Letters: one with two different headers, one with the same
  header twice.\<close>

definition two_letters_lines :: "pstr list" where
  "two_letters_lines =
     [str ''THE EPISTLES OF SENECA'',
      str ''I. ON SAVING TIME'',
      str ''Continue to act thus.'',
      str ''II. ON DISCURSIVENESS IN READING'',
      str ''Farewell.'']"

definition repeated_header_lines :: "pstr list" where
  "repeated_header_lines =
     [str ''THE EPISTLES OF SENECA'',
      str ''I. ON SAVING TIME'',
      str ''Continue to act thus.'',
      str ''I. ON SAVING TIME'',
      str ''Farewell.'']"

section \<open>For the text normalizer\<close>

text \<open>\<open>matches_somewhere m s\<close>: the pattern \<open>m\<close> matches at some position of \<open>s\<close>
  (what \<open>pattern.search(s)\<close> tests).\<close>

fun matches_somewhere :: "(pstr \<Rightarrow> nat option) \<Rightarrow> pstr \<Rightarrow> bool" where
  "matches_somewhere m [] = (m [] \<noteq> None)"
| "matches_somewhere m (c # cs) = (m (c # cs) \<noteq> None \<or> matches_somewhere m cs)"

text \<open>\<open>ok_hs s\<close>: every whitespace character of \<open>s\<close> other than a newline is a
  single space that no such character follows; these are the texts that the substitution
  of \<open>[^\S\n]+\<close> leaves alone.\<close>

fun ok_hs :: "pstr \<Rightarrow> bool" where
  "ok_hs [] = True"
| "ok_hs (c # cs) =
     ((is_hspace c \<longrightarrow> c = SP \<and> (cs = [] \<or> \<not> is_hspace (hd cs))) \<and> ok_hs cs)"

text \<open>
  A line of a text is not empty and holds no line end; a content line is a line that
  does not consist of whitespace only. \<open>runs_text w rs\<close> is the text that holds the
  line \<open>w\<close> and then, for each pair \<open>(n, w')\<close> of \<open>rs\<close> in order, \<open>n\<close> newlines and the
  line \<open>w'\<close>. \<open>norm_line w\<close> is a line with its whitespace normalized: every run of
  whitespace inside it is one space, and there is none at its ends (nothing is left of
  a line of whitespace).
\<close>

definition text_line :: "pstr \<Rightarrow> bool" where
  "text_line w = (w \<noteq> [] \<and> NL \<notin> set w \<and> CR \<notin> set w)"

definition content_line :: "pstr \<Rightarrow> bool" where
  "content_line w = (NL \<notin> set w \<and> CR \<notin> set w \<and> \<not> list_all isspace w)"

fun runs_text :: "pstr \<Rightarrow> (nat \<times> pstr) list \<Rightarrow> pstr" where
  "runs_text w [] = w"
| "runs_text w ((n, w') # rs) = w @ replicate n NL @ runs_text w' rs"

definition norm_line :: "pstr \<Rightarrow> pstr" where
  "norm_line w = strip (re_sub RE_HSPACE [SP] w)"

text \<open>
  The lines of a text, a line ending at \<open>\r\n\<close>, \<open>\r\<close> or \<open>\n\<close>; the texts none of whose
  lines consists of whitespace only (a line may be empty); and the text left by the two
  marker substitutions of the Discourses.
\<close>

definition text_lines :: "pstr \<Rightarrow> pstr list" where
  "text_lines t = split_on NL (replace [CR] [NL] (replace [CR, NL] [NL] t))"

definition no_space_only_line :: "pstr \<Rightarrow> bool" where
  "no_space_only_line t = list_all (\<lambda>l. l = [] \<or> \<not> list_all isspace l) (text_lines t)"

definition without_markers :: "pstr \<Rightarrow> pstr" where
  "without_markers t = re_sub RE_INLINE_PAGE [] (re_sub RE_FOOTNOTE_REF [] t)"

text \<open>A text with carriage returns, runs of spaces, a tab and a footnote reference.\<close>

definition spaced_text :: pstr where
  "spaced_text = str '' a   b '' @ [CR, NL, NL, CR, NL, NL] @ str ''  b [*1-1] c'' @ [9, NL]"

text \<open>Sample texts: three lines with runs of three and of four newlines between them and
  one newline at the end, and two lines of the Discourses with markers.\<close>

definition three_lines :: pstr where
  "three_lines = str ''a b'' @ [NL, NL, NL] @ str ''c'' @ [NL, NL, NL, NL] @ str '' d'' @ [NL]"

definition marked_lines :: pstr where
  "marked_lines = str ''a [*1-1]'' @ [NL, NL, NL, NL] @ str ''b [p. 3]c''"

section \<open>For the Discourses\<close>

text \<open>A state of the loop of \<open>parse_discourses\<close> inside a notes region, and a state of the
  loop of \<open>parse_manual\<close> with section 5 open.\<close>

definition notes_state :: discourses_state where
  "notes_state =
     \<lparr>chapters = [], current_book = Some 1, current_chapter_num = Some 30,
      current_chapter_title = Some (str ''HOW TO BEHAVE''),
      current_chapter_lines = [str ''Last words.''],
      awaiting_title = False, in_notes = True\<rparr>"




section \<open>For the anchors\<close>

text \<open>
  The Discourses. The search loop of \<open>parse_discourses\<close> reads the lines in order and
  stops at the line that ends the content (\<open>scan_stops\<close>, the two \<open>break\<close> conditions); it
  reaches line \<open>k\<close> when it has not stopped before. An anchor is located when the loop
  reaches a line that is the anchor.
\<close>

definition scan_stops :: "pstr list \<Rightarrow> nat \<Rightarrow> bool" where
  "scan_stops lines i =
     (let stripped = strip (lines ! i) in
      (RE_NOTES_HEADER stripped \<and> contains stripped (str ''IV'')) \<or>
      (RE_DISCOURSES_SEPARATOR stripped \<and> notes_iv_ahead lines i))"






text \<open>
  On the Shortness of Life. \<open>chapter_number line\<close> is what \<open>find_content_start\<close> reads
  on a line: nothing, a number, or the exception of \<open>int\<close> (\<open>int_fails\<close>). The header
  of chapter 1 is located when a line has the number 1 and \<open>int\<close> fails on no line
  before it.
\<close>

definition chapter_number :: "pstr \<Rightarrow> (py_exn + int) option" where
  "chapter_number line =
     map_option (\<lambda>m. int_of_digits (fst m)) (RE_CHAPTER_HEADER_shortness (strip line))"

definition int_fails :: "pstr \<Rightarrow> bool" where
  "int_fails line =
     (case chapter_number line of
        None \<Rightarrow> False
      | Some (Inl e) \<Rightarrow> True
      | Some (Inr num) \<Rightarrow> False)"

definition chapter_1_located :: "pstr list \<Rightarrow> bool" where
  "chapter_1_located lines =
     list_ex (\<lambda>line. chapter_number line = Some (Inr 1))
       (takeWhile (\<lambda>line. \<not> int_fails line) lines)"











section \<open>For the word counts\<close>

text \<open>The word count of a record is that of its text.\<close>

definition word_count_ok :: "out_section \<Rightarrow> bool" where
  "word_count_ok s = (s_word_count s = length (split_ws (s_text s)))"

text \<open>One raw section for each parser.\<close>

definition sample_letter :: raw_letter where
  "sample_letter =
     \<lparr>rl_number = 1, rl_title = str ''ON SAVING TIME'',
      rl_lines = [str ''Continue  to act[1] thus.'']\<rparr>"

definition sample_chapter :: raw_chapter where
  "sample_chapter =
     \<lparr>ch_book_num = 1, ch_chapter_num = 2, ch_chapter_title = None,
      ch_lines = [str ''To the rational [*1-3] creature.'']\<rparr>"

definition sample_book :: "int \<times> pstr list" where
  "sample_book = (2, [str ''Begin the morning.'', [], str ''This in Carnuntum.''])"

definition sample_short_chapter :: raw_short_chapter where
  "sample_short_chapter =
     \<lparr>sc_number = 4, sc_first_line_text = str ''You will see'', sc_lines = [str ''the most powerful.'']\<rparr>"

chapter \<open>Properties\<close>

section \<open>Properties of the Roman numerals\<close>

lemma ROMAN_VALUES_guard: "list_all (\<lambda>(nml, v). nml \<noteq> [] \<and> 0 < v) ROMAN_VALUES"
  by (simp add: ROMAN_VALUES_def str_def)

lemma roman_round_trips_upto_124: "list_all roman_round_trips [1..124]"
  by code_simp

text \<open>
  C1. For every integer \<open>n\<close> with \<open>1 \<le> n \<le> 124\<close>, decoding the numeral that
  \<open>int_to_roman\<close> produces gives \<open>n\<close> back, and the numeral is written with the
  letters I, V, X, L, C, D, M only.
\<close>

theorem roman_round_trip:
  assumes "1 \<le> n" and "n \<le> 124"
  shows "roman_to_int (int_to_roman n) = n \<and>
         set (int_to_roman n) \<subseteq> set (str ''IVXLCDM'')"
proof -
  from assms have "n \<in> set [1..124]" by simp
  with roman_round_trips_upto_124 have "roman_round_trips n"
    by (simp only: list_all_iff)
  then show ?thesis
    by (auto simp: roman_round_trips_def list_all_iff)
qed

theorem roman_round_trip_witness:
  "roman_to_int (int_to_roman 124) = 124 \<and> int_to_roman 124 = str ''CXXIV''"
proof -
  have "roman_to_int (int_to_roman 124) = 124"
    using roman_round_trip [of 124] by simp
  moreover have "int_to_roman 124 = str ''CXXIV''"
    by code_simp
  ultimately show ?thesis by simp
qed

section \<open>Properties of the content regions\<close>

subsection \<open>Content regions\<close>

lemma region_end_le: "j \<le> length lines \<Longrightarrow> region_end lines start j \<le> length lines"
proof (induction lines start j rule: region_end.induct)
  case (1 lines start j)
  show ?case
  proof (cases "j < length lines")
    case False
    with "1.prems" show ?thesis by (subst region_end.simps) simp
  next
    case True
    let ?s = "strip (lines ! j)"
    show ?thesis
    proof (cases "RE_VOLUME_MARKER ?s \<or> RE_INDEX_HEADER ?s \<or> RE_APPENDIX_HEADER ?s \<or>
                  RE_PRINTER ?s \<or> RE_DIGITAL_EDITION ?s \<or> RE_CONTENTS_HEADER ?s \<or>
                  (j > start \<and> RE_VOLUME_HEADER ?s)")
      case True
      with \<open>j < length lines\<close> show ?thesis
        by (subst region_end.simps) (auto simp: Let_def)
    next
      case False
      with \<open>j < length lines\<close> have "region_end lines start (j + 1) \<le> length lines"
        by (intro "1.IH") auto
      moreover from False \<open>j < length lines\<close>
      have "region_end lines start j = region_end lines start (j + 1)"
        by (subst region_end.simps) (auto simp: Let_def)
      ultimately show ?thesis by simp
    qed
  qed
qed

section \<open>Facts about the string functions\<close>

lemma strip_Nil [simp]: "strip [] = []"
  by (simp add: strip_def)

lemma strip_fixed:
  assumes "s = [] \<or> (\<not> isspace (hd s) \<and> \<not> isspace (last s))"
  shows "strip s = s"
proof (cases "s = []")
  case True
  then show ?thesis by simp
next
  case False
  with assms have a: "\<not> isspace (hd s)" and l: "\<not> isspace (last s)" by auto
  from a have "dropWhile isspace s = s" by (simp add: dropWhile_eq_self_iff)
  moreover have "hd (rev s) = last s" using False by (simp add: hd_rev)
  with l have "dropWhile isspace (rev s) = rev s"
    by (simp add: dropWhile_eq_self_iff)
  ultimately show ?thesis by (simp add: strip_def)
qed

lemma strip_ends:
  "strip s = [] \<or> (\<not> isspace (hd (strip s)) \<and> \<not> isspace (last (strip s)))"
proof (cases "strip s = []")
  case True
  then show ?thesis by simp
next
  case False
  define t where "t = dropWhile isspace s"
  define u where "u = dropWhile isspace (rev t)"
  have su: "strip s = rev u" by (simp add: strip_def t_def u_def)
  with False have u: "u \<noteq> []" by simp
  then have "\<not> isspace (hd u)" unfolding u_def by (rule hd_dropWhile)
  with u have l: "\<not> isspace (last (strip s))" by (simp add: su last_rev)
  from u have t: "t \<noteq> []" unfolding u_def by (cases "t = []") simp_all
  then have ht: "\<not> isspace (hd t)" unfolding t_def by (rule hd_dropWhile)
  have "rev t = takeWhile isspace (rev t) @ u"
    unfolding u_def by simp
  then have "rev (rev t) = rev (takeWhile isspace (rev t) @ u)" by (rule arg_cong)
  then have "t = rev u @ rev (takeWhile isspace (rev t))" by simp
  then have "hd t = hd (rev u @ rev (takeWhile isspace (rev t)))" by (rule arg_cong)
  also have "\<dots> = hd (rev u)" using u by (intro hd_append2) simp
  finally have "\<not> isspace (hd (strip s))" using ht by (simp add: su)
  with l show ?thesis by simp
qed

lemma strip_strip [simp]: "strip (strip s) = strip s"
  using strip_ends [of s] by (intro strip_fixed) auto

lemma strip_append_ws:
  assumes "p \<noteq> []" "\<not> isspace (hd p)" "\<not> isspace (last p)" "list_all isspace w"
  shows "strip (p @ w) = p"
proof -
  from assms(1,2) have "dropWhile isspace (p @ w) = p @ w"
    by (simp add: dropWhile_eq_self_iff)
  moreover from assms(4) have "dropWhile isspace (rev w @ rev p) = dropWhile isspace (rev p)"
    by (simp add: dropWhile_append list_all_iff)
  moreover have "hd (rev p) = last p" using assms(1) by (simp add: hd_rev)
  with assms(3) have "dropWhile isspace (rev p) = rev p"
    by (simp add: dropWhile_eq_self_iff)
  ultimately show ?thesis by (simp add: strip_def)
qed

lemma digit_value_below:
  "c < 1632 \<Longrightarrow> digit_value c = (if 48 \<le> c \<and> c < 58 then Some (c - 48) else None)"
  by (simp add: digit_value_def DECIMAL_ZEROS_def)

lemma isdigit_below: "c < 1632 \<Longrightarrow> isdigit c = (48 \<le> c \<and> c \<le> 57)"
  by (auto simp: isdigit_def digit_value_below)

lemma arabic_indic_one: "isdigit 1633" "digit_value 1633 = Some 1"
  by (simp_all add: isdigit_def digit_value_def DECIMAL_ZEROS_def)




section \<open>Properties of the Letters parser\<close>

subsection \<open>The header of letter 91\<close>

lemma lit_SomeD: "lit p s = Some r \<Longrightarrow> s = p @ r"
  by (auto simp: lit_def startswith_def split: if_splits) (metis append_take_drop_id)

lemma re_sub_marker_skip:
  assumes "\<forall>c\<in>set p. c \<noteq> 91"
  shows "re_sub RE_FOOTNOTE_MARKER repl (p @ t) = p @ re_sub RE_FOOTNOTE_MARKER repl t"
  using assms
proof (induction p)
  case Nil
  then show ?case by simp
next
  case (Cons a p)
  then have "RE_FOOTNOTE_MARKER (a # p @ t) = None"
    by (simp add: RE_FOOTNOTE_MARKER_def)
  with Cons show ?case by simp
qed

lemma re_sub_marker_ws:
  assumes "list_all isspace w"
  shows "re_sub RE_FOOTNOTE_MARKER repl w = w"
proof -
  from assms have "\<forall>c\<in>set w. c \<noteq> 91" by (auto simp: list_all_iff isspace_def)
  then have "re_sub RE_FOOTNOTE_MARKER repl (w @ []) = w @ re_sub RE_FOOTNOTE_MARKER repl []"
    by (rule re_sub_marker_skip)
  then show ?thesis by (simp add: RE_FOOTNOTE_MARKER_def)
qed

lemma re_sub_marker_tail:
  assumes "marker_ws_end r"
  shows "list_all isspace (re_sub RE_FOOTNOTE_MARKER [] r)"
proof (cases "list_all isspace r")
  case True
  then show ?thesis by (simp add: re_sub_marker_ws)
next
  case False
  with assms obtain k where k: "RE_FOOTNOTE_MARKER r = Some k" and w: "list_all isspace (drop k r)"
    by (auto simp: marker_ws_end_def split: option.splits)
  from k obtain c cs where r: "r = c # cs" by (cases r) (auto simp: RE_FOOTNOTE_MARKER_def)
  from k r obtain k' where k': "k = Suc k'"
    by (cases k) (auto simp: RE_FOOTNOTE_MARKER_def split: if_splits)
  from k r k' have "re_sub RE_FOOTNOTE_MARKER [] r = re_sub RE_FOOTNOTE_MARKER [] (drop k' cs)"
    by simp
  also have "drop k' cs = drop k r" by (simp add: r k')
  finally show ?thesis using w by (simp add: re_sub_marker_ws)
qed

lemma LYONS_facts:
  "LYONS \<noteq> []" "hd LYONS = 79" "last LYONS = 83" "\<forall>c\<in>set LYONS. c \<noteq> 91"
  by (simp_all add: LYONS_def str_def)

lemma letter_91_lemma:
  assumes "RE_LETTER_91_HEADER (strip line)"
  shows "RE_LETTER_HEADER (strip line) = None"
    and "is_letter_header line = Some (91, LYONS)"
proof -
  from assms obtain r where r: "lit LYONS (strip line) = Some r" and tail: "marker_ws_end r"
    by (auto simp: RE_LETTER_91_HEADER_def LYONS_def split: option.splits)
  from r have eq: "strip line = LYONS @ r" by (rule lit_SomeD)
  have hd: "hd (strip line) = 79" and ne: "strip line \<noteq> []"
    using LYONS_facts by (simp_all add: eq)
  from hd ne have tw: "takeWhile is_IVXLC (strip line) = []"
    by (cases "strip line") (simp_all add: is_IVXLC_def str_def)
  show "RE_LETTER_HEADER (strip line) = None"
    by (simp add: RE_LETTER_HEADER_def tw)
  have toc: "\<not> RE_TOC_ENTRY (strip line)" by (simp add: RE_TOC_ENTRY_def tw)
  have app: "\<not> RE_APPARATUS_ENTRY (strip line)" by (simp add: RE_APPARATUS_ENTRY_def tw)
  have "re_sub RE_FOOTNOTE_MARKER [] (strip line) = LYONS @ re_sub RE_FOOTNOTE_MARKER [] r"
    unfolding eq using LYONS_facts(4) by (rule re_sub_marker_skip)
  moreover have "list_all isspace (re_sub RE_FOOTNOTE_MARKER [] r)"
    using tail by (rule re_sub_marker_tail)
  ultimately have "strip (re_sub RE_FOOTNOTE_MARKER [] (strip line)) = LYONS"
    using LYONS_facts by (simp add: strip_append_ws isspace_def)
  with ne toc app assms show "is_letter_header line = Some (91, LYONS)"
    by (simp add: is_letter_header_def)
qed

text \<open>
  C8. A line that matches the fixed alternate pattern \<open>RE_LETTER_91_HEADER\<close> does not
  match the general header pattern (it has no Roman numeral), yet \<open>is_letter_header\<close>
  recognises it as the header of letter 91 with the fixed title, and the loop of
  \<open>parse_letters\<close> closes the open letter and opens letter 91 on it.
\<close>

theorem letter_91_anomaly:
  assumes "RE_LETTER_91_HEADER (strip line)"
  shows "RE_LETTER_HEADER (strip line) = None \<and>
         is_letter_header line =
           Some (91, str ''ON THE LESSON TO BE DRAWN FROM THE BURNING OF LYONS'') \<and>
         letters_step st line =
           \<lparr>raw_letters = flush_letter st,
            current = Some (91, str ''ON THE LESSON TO BE DRAWN FROM THE BURNING OF LYONS''),
            current_lines = []\<rparr>"
proof -
  from assms have "RE_LETTER_91_HEADER (strip (strip line))" by simp
  then have "is_letter_header (strip line) = Some (91, LYONS)" by (rule letter_91_lemma(2))
  then have "letters_step st line =
      \<lparr>raw_letters = flush_letter st, current = Some (91, LYONS), current_lines = []\<rparr>"
    by (simp add: letters_step_def)
  with letter_91_lemma [OF assms] show ?thesis by (simp add: LYONS_def)
qed

theorem letter_91_anomaly_witness:
  "RE_LETTER_91_HEADER (strip (str ''  ON THE LESSON TO BE DRAWN FROM THE BURNING OF LYONS[1] '')) \<and>
   is_letter_header (str ''  ON THE LESSON TO BE DRAWN FROM THE BURNING OF LYONS[1] '') =
     Some (91, str ''ON THE LESSON TO BE DRAWN FROM THE BURNING OF LYONS'')"
proof -
  have h: "RE_LETTER_91_HEADER
             (strip (str ''  ON THE LESSON TO BE DRAWN FROM THE BURNING OF LYONS[1] ''))"
    by (simp add: RE_LETTER_91_HEADER_def marker_ws_end_def RE_FOOTNOTE_MARKER_def lit_def
          startswith_def strip_def str_def isspace_def isdigit_below)
  from letter_91_anomaly [OF h] h show ?thesis by simp
qed

subsection \<open>Footnotes at the end of a letter\<close>

lemma clean_letter_step_in_footnotes:
  "clean_letter_step (cleaned, True) line = (cleaned, True)"
  by (simp add: clean_letter_step_def Let_def)

lemma foldl_clean_letter_step_in_footnotes:
  "foldl clean_letter_step (cleaned, True) ls = (cleaned, True)"
  by (induction ls) (simp_all add: clean_letter_step_in_footnotes)

lemma clean_letter_step_arrow:
  assumes "RE_FOOTNOTE_LINE (strip line)"
  shows "clean_letter_step st line = (fst st, True)"
proof -
  from assms have "strip line \<noteq> []" by (auto simp: RE_FOOTNOTE_LINE_def startswith_def)
  with assms show ?thesis by (simp add: clean_letter_step_def Let_def)
qed

text \<open>
  C10. Once \<open>clean_letter_text\<close> meets a line that starts (after stripping) with the
  footnote sentinel U+2191, that line and every later line of the letter, whatever it
  holds, contribute nothing: the result is that of the lines before the sentinel line.
\<close>

theorem footnote_tail_suppressed:
  assumes "RE_FOOTNOTE_LINE (strip line)"
  shows "clean_letter_text (before @ line # after) letter_num = clean_letter_text before letter_num"
proof -
  have "foldl clean_letter_step ([], False) (before @ line # after) =
        foldl clean_letter_step
          (clean_letter_step (foldl clean_letter_step ([], False) before) line) after"
    by simp
  also have "\<dots> = (fst (foldl clean_letter_step ([], False) before), True)"
    by (simp add: clean_letter_step_arrow [OF assms] foldl_clean_letter_step_in_footnotes)
  finally show ?thesis by (simp add: clean_letter_text_def)
qed

theorem footnote_tail_suppressed_witness:
  "RE_FOOTNOTE_LINE (strip (8593 # str '' Cf. Ep. i.'')) \<and>
   clean_letter_text [str ''Farewell.'', 8593 # str '' Cf. Ep. i.'', [], str ''More prose.''] 7
     = str ''Farewell.''"
proof -
  have h: "RE_FOOTNOTE_LINE (strip (8593 # str '' Cf. Ep. i.''))"
    by code_simp
  have "clean_letter_text [str ''Farewell.''] 7 = str ''Farewell.''"
    by (simp add: clean_letter_text_def clean_letter_step_def strip_def str_def isspace_def
          RE_FOOTNOTE_LINE_def startswith_def RE_FOOTNOTE_MARKER_def RE_SPACES2_def
          RE_NEWLINES3_def Let_def)
  with footnote_tail_suppressed [OF h, of "[str ''Farewell.'']" "[[], str ''More prose.'']" 7] h
  show ?thesis by simp
qed

subsection \<open>Letter numbers of the emitted sections\<close>

lemma flush_letters_step:
  "map rl_number (flush_letter (letters_step st line)) =
   map rl_number (flush_letter st) @
     (case is_letter_header (strip line) of None \<Rightarrow> [] | Some h \<Rightarrow> [fst h])"
  by (auto simp: letters_step_def flush_letter_def Let_def split: option.splits)

lemma flush_foldl_letters_step:
  "map rl_number (flush_letter (foldl letters_step st ls)) =
   map rl_number (flush_letter st) @
     map fst (List.map_filter (\<lambda>l. is_letter_header (strip l)) ls)"
proof (induction ls arbitrary: st)
  case Nil
  then show ?case by (simp add: List.map_filter_simps)
next
  case (Cons l ls)
  show ?case
    by (simp add: Cons.IH flush_letters_step List.map_filter_simps split: option.splits)
qed

lemma map_filter_map: "List.map_filter f (map g xs) = List.map_filter (f \<circ> g) xs"
  by (induction xs) (simp_all add: List.map_filter_simps split: option.splits)

lemma parse_region_numbers:
  "map rl_number (parse_region lines raw region) =
   map rl_number raw @
     map fst (List.map_filter (\<lambda>idx. is_letter_header (strip (lines ! idx)))
                [fst region..<snd region])"
proof -
  have "map rl_number (flush_letter \<lparr>raw_letters = raw, current = None, current_lines = []\<rparr>) =
        map rl_number raw"
    by (simp add: flush_letter_def)
  then show ?thesis
    unfolding parse_region_def flush_foldl_letters_step
    by (simp add: map_filter_map comp_def)
qed

lemma foldl_parse_region_numbers:
  "map rl_number (foldl (parse_region lines) raw regions) =
   map rl_number raw @ header_numbers lines regions"
proof (induction regions arbitrary: raw)
  case Nil
  then show ?case by (simp add: header_numbers_def)
next
  case (Cons r rs)
  show ?case by (simp add: Cons.IH parse_region_numbers header_numbers_def)
qed

lemma parse_letters_numbers:
  assumes "parse_letters lines regions = Inr raw"
  shows "map rl_number raw = header_numbers lines regions"
  using assms foldl_parse_region_numbers [of lines "[]" regions]
  by (auto simp: parse_letters_def split: if_splits)

lemma letter_section_number:
  "letter_section l = Some s \<Longrightarrow> s_letter_number s = Some (rl_number l)"
  by (auto simp: letter_section_def Let_def split: if_splits)

lemma build_sections_letters_numbers:
  "map s_letter_number (build_sections_letters raw) =
   map (Some \<circ> rl_number) (filter (\<lambda>l. letter_section l \<noteq> None) raw)"
proof (induction raw)
  case Nil
  then show ?case by (simp add: build_sections_letters_def List.map_filter_simps)
next
  case (Cons l raw)
  then show ?case
    by (cases "letter_section l")
       (auto simp: build_sections_letters_def List.map_filter_simps letter_section_number)
qed

lemma distinct_count_list: "distinct xs \<longleftrightarrow> (\<forall>x\<in>set xs. count_list xs x \<le> 1)"
proof (induction xs)
  case Nil
  then show ?case by simp
next
  case (Cons a xs)
  show ?case
  proof (cases "a \<in> set xs")
    case True
    then have "count_list xs a \<noteq> 0" by (simp add: count_list_0_iff)
    with True show ?thesis by auto
  next
    case False
    with Cons show ?thesis by auto
  qed
qed

lemma validate_duplicate_distinct:
  "validate_duplicate sections = [] \<longleftrightarrow> distinct (map s_letter_number sections)"
proof -
  define xs where "xs = sort (map s_letter_number sections)"
  have "filter (\<lambda>n. count_list xs n > 1) xs = [] \<longleftrightarrow> distinct xs"
  proof
    assume "filter (\<lambda>n. count_list xs n > 1) xs = []"
    then have "\<forall>n\<in>set xs. count_list xs n \<le> 1" by (auto simp: filter_empty_conv not_less)
    then show "distinct xs" by (simp add: distinct_count_list)
  next
    assume "distinct xs"
    then show "filter (\<lambda>n. count_list xs n > 1) xs = []"
      by (auto simp: filter_empty_conv distinct_count_list not_less)
  qed
  moreover have "distinct xs \<longleftrightarrow> distinct (map s_letter_number sections)"
    by (simp add: xs_def)
  ultimately show ?thesis by (simp add: validate_duplicate_def xs_def Let_def)
qed

lemma find_letter_regions_from_in_range:
  assumes "list_all (\<lambda>(s, e). e \<le> s \<or> e \<le> length lines) regions"
  shows "list_all (\<lambda>(s, e). e \<le> s \<or> e \<le> length lines) (find_letter_regions_from lines i regions)"
  using assms
proof (induction lines i regions rule: find_letter_regions_from.induct)
  case (1 lines i regions)
  show ?case
  proof (cases "i < length lines")
    case False
    with "1.prems" show ?thesis by (subst find_letter_regions_from.simps) simp
  next
    case True
    show ?thesis
    proof (cases "RE_VOLUME_HEADER (strip (lines ! i))")
      case False
      with True "1.IH"(2) "1.prems" show ?thesis
        by (subst find_letter_regions_from.simps) simp
    next
      case h: True
      have "region_end lines (i + 1) (i + 1) \<le> length lines"
        using True by (intro region_end_le) simp
      with "1.prems" have "list_all (\<lambda>(s, e). e \<le> s \<or> e \<le> length lines)
            (regions @ [(i + 1, region_end lines (i + 1) (i + 1))])"
        by simp
      with True h "1.IH"(1) show ?thesis
        by (subst find_letter_regions_from.simps) (simp add: Let_def)
    qed
  qed
qed

lemma parse_letters_regions_ok:
  "parse_letters lines (find_letter_regions lines) =
   Inr (foldl (parse_region lines) [] (find_letter_regions lines))"
  using find_letter_regions_from_in_range [of lines "[]" 0]
  by (simp add: parse_letters_def find_letter_regions_def)

text \<open>
  C2 (amended). When no two header lines inside the letter regions carry the same letter
  number, no two sections produced by \<open>parse_letters\<close> followed by \<open>build_sections\<close>
  share a letter number, and the duplicate check of \<open>validate\<close> reports nothing.
  (A header that the input repeats opens a second section with the same number.)
\<close>

theorem letter_numbers_unique_when_headers_unique:
  assumes "distinct (header_numbers lines (find_letter_regions lines))"
  shows "\<exists>sections. letters_sections lines = Inr sections \<and>
           distinct (map s_letter_number sections) \<and>
           validate_duplicate sections = []"
proof -
  define raw where "raw = foldl (parse_region lines) [] (find_letter_regions lines)"
  have p: "parse_letters lines (find_letter_regions lines) = Inr raw"
    by (simp add: raw_def parse_letters_regions_ok)
  then have "map rl_number raw = header_numbers lines (find_letter_regions lines)"
    by (rule parse_letters_numbers)
  with assms have "distinct (map rl_number raw)" by simp
  then have "distinct (map rl_number (filter (\<lambda>l. letter_section l \<noteq> None) raw))"
    by (rule distinct_map_filter)
  then have d: "distinct (map s_letter_number (build_sections_letters raw))"
    by (simp add: build_sections_letters_numbers distinct_map comp_def inj_on_def)
  from p have "letters_sections lines = Inr (build_sections_letters raw)"
    by (simp add: letters_sections_def)
  with d show ?thesis by (simp add: validate_duplicate_distinct)
qed

lemmas letters_eval =
  str_def isspace_def isdigit_below is_AZ_def strip_def startswith_def lit_def at_dollar_def
  rstrip_char_def is_IVXLC_def is_IVX_def
  RE_VOLUME_HEADER_def RE_VOLUME_MARKER_def RE_INDEX_HEADER_def RE_APPENDIX_HEADER_def
  RE_PRINTER_def RE_DIGITAL_EDITION_def RE_CONTENTS_HEADER_def RE_TOC_ENTRY_def
  RE_APPARATUS_ENTRY_def RE_LETTER_91_HEADER_def RE_LETTER_HEADER_def RE_SEPARATOR_def
  RE_FOOTNOTE_LINE_def RE_FOOTNOTE_MARKER_def RE_SPACES2_def RE_NEWLINES3_def
  toc_number_def title_lazy_def marker_ws_end_def is_title_char_def
  is_letter_header_def roman_to_int_def roman_to_int_while.simps ROMAN_VALUES_def
  parse_region_def letters_step_def flush_letter_def
  clean_letter_text_def clean_letter_step_def letter_section_def build_sections_letters_def

theorem letter_numbers_unique_when_headers_unique_witness:
  "distinct (header_numbers two_letters_lines (find_letter_regions two_letters_lines)) \<and>
   (\<exists>sections. letters_sections two_letters_lines = Inr sections \<and>
      distinct (map s_letter_number sections) \<and> validate_duplicate sections = [])"
proof -
  have h: "distinct (header_numbers two_letters_lines (find_letter_regions two_letters_lines))"
    by (simp add: header_numbers_def find_letter_regions_def find_letter_regions_from.simps
          region_end.simps two_letters_lines_def letters_eval Let_def)
  from letter_numbers_unique_when_headers_unique [OF h] h show ?thesis by simp
qed

text \<open>The claim as stated fails: a header line that occurs twice in a region gives two
  sections with the letter number 1.\<close>

theorem letter_numbers_counterexample:
  "map_sum id (map s_letter_number) (letters_sections repeated_header_lines) =
     Inr [Some 1, Some 1]"
  by (simp add: letters_sections_def parse_letters_def find_letter_regions_def
        find_letter_regions_from.simps region_end.simps repeated_header_lines_def
        letters_eval Let_def)

text \<open>The marker of a header may be written with the decimal digits of any script, here
  with the Arabic-Indic digit one (U+0661).\<close>

lemma header_with_arabic_indic_marker:
  "is_letter_header (str ''I. ON SAVING TIME'' @ [91, 1633, 93]) =
     Some (1, str ''ON SAVING TIME'')"
  "map_sum id (map s_letter_number)
     (letters_sections
        [str ''THE EPISTLES OF SENECA'', str ''I. ON SAVING TIME'',
         str ''Continue to act thus.'', str ''I. ON SAVING TIME'' @ [91, 1633, 93],
         str ''Farewell.'']) =
   Inr [Some 1, Some 1]"
  by (simp_all add: letters_sections_def parse_letters_def find_letter_regions_def
        find_letter_regions_from.simps region_end.simps letters_eval arabic_indic_one Let_def)

section \<open>Properties of the text normalizer\<close>

subsection \<open>The separate steps\<close>

lemma re_sub_no_match: "\<not> matches_somewhere m s \<Longrightarrow> re_sub m r s = s"
  by (induction s) auto

lemma replace_absent:
  assumes "old \<noteq> []" "hd old \<notin> set s"
  shows "replace old new s = s"
  using assms
proof (induction s)
  case Nil
  then show ?case by simp
next
  case (Cons c s)
  then have "\<not> startswith (c # s) old"
    by (cases old) (auto simp: startswith_def)
  with Cons show ?case by simp
qed

lemma newlines3_none: "c \<noteq> NL \<Longrightarrow> RE_NEWLINES3 (c # s) = None"
  by (simp add: RE_NEWLINES3_def)

lemma newlines3_Nil [simp]: "RE_NEWLINES3 [] = None"
  by (simp add: RE_NEWLINES3_def)

lemma re_sub_newlines3_prefix:
  "\<forall>c\<in>set a. c \<noteq> NL \<Longrightarrow>
   re_sub RE_NEWLINES3 r (a @ t) = a @ re_sub RE_NEWLINES3 r t"
  by (induction a) (simp_all add: newlines3_none)

lemma takeWhile_replicate_append:
  assumes "b = [] \<or> hd b \<noteq> x"
  shows "takeWhile (\<lambda>c. c = x) (replicate n x @ b) = replicate n x"
proof -
  from assms have "takeWhile (\<lambda>c. c = x) b = []" by (cases b) auto
  then show ?thesis by (induction n) simp_all
qed

lemma re_sub_newlines3_run:
  assumes "b = [] \<or> hd b \<noteq> NL"
  shows "re_sub RE_NEWLINES3 [NL, NL] (replicate n NL @ b) =
         replicate (min n 2) NL @ re_sub RE_NEWLINES3 [NL, NL] b"
proof -
  have len: "\<And>k. length (takeWhile (\<lambda>c. c = NL) (replicate k NL @ b)) = k"
    using assms by (simp add: takeWhile_replicate_append)
  consider "n = 0" | "n = 1" | "n = 2" | "3 \<le> n" by linarith
  then show ?thesis
  proof cases
    case 1
    then show ?thesis by simp
  next
    case 2
    have "RE_NEWLINES3 (NL # b) = None"
      using len [of 1] by (simp add: RE_NEWLINES3_def)
    with 2 show ?thesis by simp
  next
    case 3
    have "RE_NEWLINES3 (NL # NL # b) = None"
      using len [of 2] by (simp add: RE_NEWLINES3_def numeral_2_eq_2)
    moreover have "RE_NEWLINES3 (NL # b) = None"
      using len [of 1] by (simp add: RE_NEWLINES3_def)
    ultimately show ?thesis using 3 by (simp add: numeral_2_eq_2)
  next
    case 4
    then obtain k where k: "n = Suc k" by (cases n) auto
    from 4 have "RE_NEWLINES3 (replicate n NL @ b) = Some n"
      using len [of n] by (simp add: RE_NEWLINES3_def)
    then have "RE_NEWLINES3 (NL # replicate k NL @ b) = Some (Suc k)" by (simp add: k)
    then have "re_sub RE_NEWLINES3 [NL, NL] (NL # replicate k NL @ b) =
               [NL, NL] @ re_sub RE_NEWLINES3 [NL, NL] (drop k (replicate k NL @ b))"
      by simp
    with 4 show ?thesis by (simp add: k numeral_2_eq_2)
  qed
qed

lemma split_on_nonempty [simp]: "split_on c s \<noteq> []"
  by (induction s) (auto split: list.splits)

lemma join_split_on: "join [c] (split_on c s) = s"
proof (induction s)
  case Nil
  then show ?case by simp
next
  case (Cons a s)
  obtain l ls where sp: "split_on c s = l # ls" by (cases "split_on c s") auto
  show ?case
  proof (cases "a = c")
    case True
    with Cons sp show ?thesis by simp
  next
    case False
    with Cons sp show ?thesis by (cases ls) auto
  qed
qed

lemma split_on_set: "l \<in> set (split_on c s) \<Longrightarrow> set l \<subseteq> set s"
proof (induction s arbitrary: l)
  case Nil
  then show ?case by simp
next
  case (Cons a s)
  obtain k ks where sp: "split_on c s = k # ks" by (cases "split_on c s") auto
  show ?case
  proof (cases "a = c")
    case True
    with Cons sp show ?thesis by auto
  next
    case False
    with Cons.prems sp have "l = a # k \<or> l \<in> set ks" by auto
    then show ?thesis
    proof
      assume "l = a # k"
      moreover have "set k \<subseteq> set s" using Cons.IH [of k] sp by simp
      ultimately show ?thesis by auto
    next
      assume "l \<in> set ks"
      then have "set l \<subseteq> set s" using Cons.IH [of l] sp by simp
      then show ?thesis by auto
    qed
  qed
qed

lemma split_on_no_sep: "l \<in> set (split_on c s) \<Longrightarrow> c \<notin> set l"
proof (induction s arbitrary: l)
  case Nil
  then show ?case by simp
next
  case (Cons a s)
  obtain k ks where sp: "split_on c s = k # ks" by (cases "split_on c s") auto
  show ?case
  proof (cases "a = c")
    case True
    with Cons sp show ?thesis by auto
  next
    case False
    with Cons.prems sp have "l = a # k \<or> l \<in> set ks" by auto
    then show ?thesis
    proof
      assume "l = a # k"
      moreover have "c \<notin> set k" using Cons.IH [of k] sp by simp
      ultimately show ?thesis using False by auto
    next
      assume "l \<in> set ks"
      then show ?thesis using Cons.IH [of l] sp by simp
    qed
  qed
qed

lemma lit_Some_hd: "lit (x # p) s = Some r \<Longrightarrow> x \<in> set s"
  by (cases s) (auto simp: lit_def startswith_def split: if_splits)

lemma footnote_ref_none: "91 \<notin> set s \<Longrightarrow> RE_FOOTNOTE_REF s = None"
proof (rule ccontr)
  assume a: "91 \<notin> set s" and "RE_FOOTNOTE_REF s \<noteq> None"
  then obtain r where "lit [91, 42] (dropWhile isspace s) = Some r"
    by (auto simp: RE_FOOTNOTE_REF_def split: option.splits)
  then have "91 \<in> set (dropWhile isspace s)" by (rule lit_Some_hd)
  then have "91 \<in> set s" by (rule set_dropWhileD)
  with a show False by simp
qed

lemma inline_page_none: "91 \<notin> set s \<Longrightarrow> RE_INLINE_PAGE s = None"
proof (rule ccontr)
  assume a: "91 \<notin> set s" and "RE_INLINE_PAGE s \<noteq> None"
  then obtain r where "lit (str ''[p.'') s = Some r"
    by (auto simp: RE_INLINE_PAGE_def split: option.splits)
  then have "lit (91 # str ''p.'') s = Some r" by (simp add: str_def)
  then have "91 \<in> set s" by (rule lit_Some_hd)
  with a show False by simp
qed

lemma no_bracket_no_marker:
  assumes "91 \<notin> set s"
  shows "\<not> matches_somewhere RE_FOOTNOTE_REF s" and "\<not> matches_somewhere RE_INLINE_PAGE s"
  using assms by (induction s) (simp_all add: footnote_ref_none inline_page_none)

lemma clean_text_discourses_no_bracket:
  "91 \<notin> set t \<Longrightarrow> clean_text_discourses t = clean_text_meditations t"
  by (simp add: clean_text_discourses_def clean_text_meditations_def
        re_sub_no_match no_bracket_no_marker)

lemma isspace_consts [simp]: "isspace NL" "isspace CR" "isspace SP"
  by (simp_all add: isspace_def)

subsection \<open>Whitespace inside a line\<close>

lemma RE_HSPACE_Nil [simp]: "RE_HSPACE [] = None"
  by (simp add: RE_HSPACE_def)

lemma hspace_sub_Cons:
  "re_sub RE_HSPACE r (c # cs) =
     (if is_hspace c then r @ re_sub RE_HSPACE r (dropWhile is_hspace cs)
      else c # re_sub RE_HSPACE r cs)"
proof (cases "is_hspace c")
  case False
  then have "RE_HSPACE (c # cs) = None" by (simp add: RE_HSPACE_def)
  with False show ?thesis by simp
next
  case True
  then have "RE_HSPACE (c # cs) = Some (Suc (length (takeWhile is_hspace cs)))"
    by (simp add: RE_HSPACE_def)
  moreover have "drop (length (takeWhile is_hspace cs)) cs = dropWhile is_hspace cs"
    by (simp add: dropWhile_eq_drop)
  ultimately show ?thesis using True by simp
qed

lemma hspace_sub_hd:
  "s \<noteq> [] \<Longrightarrow> \<not> is_hspace (hd s) \<Longrightarrow>
   re_sub RE_HSPACE r s \<noteq> [] \<and> hd (re_sub RE_HSPACE r s) = hd s"
  by (cases s) (simp_all add: hspace_sub_Cons del: re_sub.simps)

lemma ok_hs_sub: "ok_hs (re_sub RE_HSPACE [SP] x)"
proof (induction x rule: length_induct)
  case (1 x)
  show ?case
  proof (cases x)
    case Nil
    then show ?thesis by simp
  next
    case (Cons c cs)
    show ?thesis
    proof (cases "is_hspace c")
      case False
      with Cons 1 show ?thesis by (simp add: hspace_sub_Cons del: re_sub.simps)
    next
      case True
      define d where "d = dropWhile is_hspace cs"
      have "length d \<le> length cs" unfolding d_def by (rule length_dropWhile_le)
      with 1 Cons have ok: "ok_hs (re_sub RE_HSPACE [SP] d)" by simp
      have "re_sub RE_HSPACE [SP] d = [] \<or> \<not> is_hspace (hd (re_sub RE_HSPACE [SP] d))"
      proof (cases "d = []")
        case True
        then show ?thesis by simp
      next
        case False
        then have "\<not> is_hspace (hd d)" unfolding d_def by (rule hd_dropWhile)
        with False show ?thesis by (simp add: hspace_sub_hd)
      qed
      with ok True Cons show ?thesis
        by (simp add: hspace_sub_Cons d_def is_hspace_def del: re_sub.simps)
    qed
  qed
qed

lemma ok_hs_fixed: "ok_hs s \<Longrightarrow> re_sub RE_HSPACE [SP] s = s"
proof (induction s)
  case Nil
  then show ?case by simp
next
  case (Cons c cs)
  show ?case
  proof (cases "is_hspace c")
    case False
    with Cons show ?thesis by (simp add: hspace_sub_Cons del: re_sub.simps)
  next
    case True
    with Cons.prems have "c = SP" and "cs = [] \<or> \<not> is_hspace (hd cs)" by simp_all
    then have "dropWhile is_hspace cs = cs" by (simp add: dropWhile_eq_self_iff)
    with Cons True \<open>c = SP\<close> show ?thesis by (simp add: hspace_sub_Cons del: re_sub.simps)
  qed
qed

lemma ok_hs_append_D: "ok_hs (xs @ ys) \<Longrightarrow> ok_hs xs \<and> ok_hs ys"
proof (induction xs)
  case Nil
  then show ?case by simp
next
  case (Cons c xs)
  then show ?case by (cases xs) auto
qed

lemma ok_hs_char: "ok_hs s \<Longrightarrow> c \<in> set s \<Longrightarrow> is_hspace c \<Longrightarrow> c = SP"
  by (induction s) auto

lemma strip_decomp: "\<exists>p q. s = p @ strip s @ q"
proof -
  define t where "t = dropWhile isspace s"
  have "rev t = takeWhile isspace (rev t) @ dropWhile isspace (rev t)" by simp
  then have "rev (rev t) = rev (takeWhile isspace (rev t) @ dropWhile isspace (rev t))"
    by (rule arg_cong)
  then have "t = strip s @ rev (takeWhile isspace (rev t))"
    by (simp only: rev_rev_ident rev_append strip_def t_def)
  moreover have "s = takeWhile isspace s @ t" by (simp add: t_def)
  ultimately have "s = takeWhile isspace s @ strip s @ rev (takeWhile isspace (rev t))"
    by simp
  then show ?thesis by blast
qed

lemma set_strip: "set (strip s) \<subseteq> set s"
proof -
  obtain p q where "s = p @ strip s @ q" using strip_decomp by blast
  then have "set s = set p \<union> set (strip s) \<union> set q" by (metis set_append Un_assoc)
  then show ?thesis by blast
qed

lemma ok_hs_strip: "ok_hs s \<Longrightarrow> ok_hs (strip s)"
proof -
  assume a: "ok_hs s"
  obtain p q where "s = p @ strip s @ q" using strip_decomp by blast
  with a have "ok_hs (p @ strip s @ q)" by simp
  then show ?thesis using ok_hs_append_D by blast
qed

lemma split_on_prefix:
  "c \<notin> set l \<Longrightarrow> split_on c (l @ c # rest) = l # split_on c rest"
  by (induction l) auto

lemma split_on_line: "c \<notin> set l \<Longrightarrow> split_on c l = [l]"
  by (induction l) auto

lemma clean_text_discourses_eq:
  "clean_text_discourses t =
   clean_text_meditations (re_sub RE_INLINE_PAGE [] (re_sub RE_FOOTNOTE_REF [] t))"
  by (simp add: clean_text_discourses_def clean_text_meditations_def Let_def)

subsection \<open>Lines separated by runs of newlines\<close>

lemma runs_text_hd: "w \<noteq> [] \<Longrightarrow> runs_text w rs \<noteq> [] \<and> hd (runs_text w rs) = hd w"
  by (cases rs) auto

lemma runs_text_last:
  "w \<noteq> [] \<Longrightarrow> list_all (\<lambda>(n, w'). w' \<noteq> []) rs \<Longrightarrow>
   last (runs_text w rs) = last (last (w # map snd rs))"
proof (induction w rs rule: runs_text.induct)
  case (1 w)
  then show ?case by simp
next
  case (2 w n w' rs)
  then have "runs_text w' rs \<noteq> []" by (simp add: runs_text_hd)
  with 2 show ?case by simp
qed

lemma set_runs_text:
  "c \<in> set (runs_text w rs) \<Longrightarrow> c = NL \<or> c \<in> set w \<or> (\<exists>(n, w')\<in>set rs. c \<in> set w')"
  by (induction w rs rule: runs_text.induct) auto

lemma re_sub_newlines3_Nil [simp]: "re_sub RE_NEWLINES3 r [] = []"
  by simp

lemma re_sub_hspace_Nil [simp]: "re_sub RE_HSPACE r [] = []"
  by simp

lemma newlines3_runs:
  assumes "w \<noteq> []" "NL \<notin> set w" "list_all (\<lambda>(n, w'). w' \<noteq> [] \<and> NL \<notin> set w') rs"
  shows "re_sub RE_NEWLINES3 [NL, NL] (runs_text w rs @ replicate q NL) =
         runs_text w (map (\<lambda>(n, w'). (min n 2, w')) rs) @ replicate (min q 2) NL"
  using assms
proof (induction w rs rule: runs_text.induct)
  case (1 w)
  have "re_sub RE_NEWLINES3 [NL, NL] (w @ (replicate q NL @ [])) =
        w @ re_sub RE_NEWLINES3 [NL, NL] (replicate q NL @ [])"
    using 1 by (intro re_sub_newlines3_prefix) auto
  also have "re_sub RE_NEWLINES3 [NL, NL] (replicate q NL @ []) =
             replicate (min q 2) NL @ re_sub RE_NEWLINES3 [NL, NL] []"
    by (rule re_sub_newlines3_run) simp
  finally show ?case by simp
next
  case (2 w n w' rs)
  let ?X = "runs_text w' rs @ replicate q NL"
  from "2.prems" have w': "w' \<noteq> []" "NL \<notin> set w'" by simp_all
  then have "hd ?X = hd w'" using runs_text_hd [of w' rs] by simp
  moreover from w' have "hd w' \<noteq> NL" by (cases w') auto
  ultimately have hd: "?X = [] \<or> hd ?X \<noteq> NL" by simp
  have "re_sub RE_NEWLINES3 [NL, NL] (w @ (replicate n NL @ ?X)) =
        w @ re_sub RE_NEWLINES3 [NL, NL] (replicate n NL @ ?X)"
    using "2.prems" by (intro re_sub_newlines3_prefix) auto
  also have "re_sub RE_NEWLINES3 [NL, NL] (replicate n NL @ ?X) =
             replicate (min n 2) NL @ re_sub RE_NEWLINES3 [NL, NL] ?X"
    using hd by (rule re_sub_newlines3_run)
  also have "re_sub RE_NEWLINES3 [NL, NL] ?X =
             runs_text w' (map (\<lambda>(n, w'). (min n 2, w')) rs) @ replicate (min q 2) NL"
    using "2.prems" by (intro "2.IH") simp_all
  finally show ?case by simp
qed

lemma hspace_sub_append_NL:
  "re_sub RE_HSPACE r (a @ NL # b) = re_sub RE_HSPACE r a @ NL # re_sub RE_HSPACE r b"
proof (induction a rule: length_induct)
  case (1 a)
  show ?case
  proof (cases a)
    case Nil
    then show ?thesis by (simp add: hspace_sub_Cons is_hspace_def del: re_sub.simps)
  next
    case (Cons c cs)
    show ?thesis
    proof (cases "is_hspace c")
      case False
      with Cons 1 show ?thesis by (simp add: hspace_sub_Cons del: re_sub.simps)
    next
      case True
      define d where "d = dropWhile is_hspace cs"
      have "length d \<le> length cs" unfolding d_def by (rule length_dropWhile_le)
      with Cons have len: "length d < length a" by simp
      have "dropWhile is_hspace (cs @ NL # b) = d @ NL # b"
        by (simp add: d_def dropWhile_append is_hspace_def)
      moreover from 1 len
      have "re_sub RE_HSPACE r (d @ NL # b) = re_sub RE_HSPACE r d @ NL # re_sub RE_HSPACE r b"
        by simp
      ultimately show ?thesis
        using True Cons by (simp add: hspace_sub_Cons d_def del: re_sub.simps)
    qed
  qed
qed

lemma strip_lines_NL:
  assumes "NL \<notin> set a"
  shows "join [NL] (map strip (split_on NL (a @ NL # b))) =
         strip a @ NL # join [NL] (map strip (split_on NL b))"
proof -
  obtain l ls where sp: "split_on NL b = l # ls" by (cases "split_on NL b") auto
  from assms have "split_on NL (a @ NL # b) = a # split_on NL b" by (rule split_on_prefix)
  with sp show ?thesis by simp
qed

lemma strip_lines_line: "NL \<notin> set a \<Longrightarrow> join [NL] (map strip (split_on NL a)) = strip a"
  by (simp add: split_on_line)

lemma linewise_runs:
  fixes G :: "pstr \<Rightarrow> pstr" and g :: "pstr \<Rightarrow> pstr"
  assumes G_NL: "\<And>a b. NL \<notin> set a \<Longrightarrow> G (a @ NL # b) = g a @ NL # G b"
    and G_line: "\<And>a. NL \<notin> set a \<Longrightarrow> G a = g a"
    and g_Nil: "g [] = []"
    and w: "NL \<notin> set w" and rs: "list_all (\<lambda>(n, w'). 1 \<le> n \<and> NL \<notin> set w') rs"
  shows "G (replicate p NL @ runs_text w rs @ replicate q NL) =
         replicate p NL @ runs_text (g w) (map (\<lambda>(n, w'). (n, g w')) rs) @ replicate q NL"
proof -
  have rep: "G (replicate k NL @ b) = replicate k NL @ G b" for k b
  proof (induction k)
    case 0
    show ?case by simp
  next
    case (Suc k)
    have "G ([] @ NL # (replicate k NL @ b)) = g [] @ NL # G (replicate k NL @ b)"
      by (rule G_NL) simp
    with Suc show ?case by (simp add: g_Nil)
  qed
  have G_Nil: "G [] = []" using G_line [of "[]"] g_Nil by simp
  have run: "G (a @ replicate n NL @ b) = g a @ replicate n NL @ G b"
    if "NL \<notin> set a" "1 \<le> n" for a n b
  proof -
    from that(2) obtain k where n: "n = Suc k" by (cases n) auto
    have "G (a @ NL # (replicate k NL @ b)) = g a @ NL # G (replicate k NL @ b)"
      using that(1) by (rule G_NL)
    then show ?thesis by (simp add: n rep)
  qed
  have tail: "G (a @ replicate q NL) = g a @ replicate q NL" if "NL \<notin> set a" for a
  proof (cases q)
    case 0
    with that show ?thesis by (simp add: G_line)
  next
    case (Suc k)
    then have "1 \<le> q" by simp
    from run [OF that this, of "[]"] show ?thesis by (simp add: G_Nil)
  qed
  have body: "G (runs_text w rs @ replicate q NL) =
              runs_text (g w) (map (\<lambda>(n, w'). (n, g w')) rs) @ replicate q NL"
    using w rs
  proof (induction w rs rule: runs_text.induct)
    case (1 w)
    then show ?case by (simp add: tail)
  next
    case (2 w n w' rs)
    then have "G (w @ replicate n NL @ (runs_text w' rs @ replicate q NL)) =
               g w @ replicate n NL @ G (runs_text w' rs @ replicate q NL)"
      by (intro run) auto
    with 2 show ?case by simp
  qed
  show ?thesis by (simp add: rep body)
qed

subsection \<open>Normalized lines\<close>

lemma strip_Nil_iff: "strip s = [] \<longleftrightarrow> list_all isspace s"
proof
  assume "strip s = []"
  then have "dropWhile isspace (rev (dropWhile isspace s)) = []" by (simp add: strip_def)
  then have "\<forall>c\<in>set (dropWhile isspace s). isspace c"
    by (simp add: dropWhile_eq_Nil_conv)
  then have "dropWhile isspace s = []"
    using hd_dropWhile [of isspace s] by (cases "dropWhile isspace s") auto
  then show "list_all isspace s" by (simp add: dropWhile_eq_Nil_conv list_all_iff)
next
  assume "list_all isspace s"
  then show "strip s = []" by (auto simp: strip_def list_all_iff dest: set_dropWhileD)
qed

lemma strip_ws_prefix: "list_all isspace u \<Longrightarrow> strip (u @ z) = strip z"
  by (simp add: strip_def dropWhile_append list_all_iff)

lemma strip_ws_suffix:
  assumes "list_all isspace v"
  shows "strip (z @ v) = strip z"
proof (cases "list_all isspace z")
  case True
  with assms have "list_all isspace (z @ v)" by simp
  with True show ?thesis by (simp only: strip_Nil_iff [symmetric])
next
  case False
  then obtain x where "x \<in> set z" "\<not> isspace x" by (auto simp: list_all_iff)
  then have "dropWhile isspace (z @ v) = dropWhile isspace z @ v"
    by (intro dropWhile_append1)
  moreover from assms
  have "dropWhile isspace (rev v @ rev (dropWhile isspace z)) =
        dropWhile isspace (rev (dropWhile isspace z))"
    by (intro dropWhile_append2) (simp add: list_all_iff)
  ultimately show ?thesis by (simp add: strip_def)
qed

lemma strip_around: "list_all isspace u \<Longrightarrow> list_all isspace v \<Longrightarrow> strip (u @ y @ v) = strip y"
  by (simp add: strip_ws_prefix strip_ws_suffix)

lemma hspace_sub_keeps:
  "c \<in> set s \<Longrightarrow> \<not> is_hspace c \<Longrightarrow> c \<in> set (re_sub RE_HSPACE r s)"
proof (induction s rule: length_induct)
  case (1 s)
  show ?case
  proof (cases s)
    case Nil
    with 1 show ?thesis by simp
  next
    case (Cons a as)
    show ?thesis
    proof (cases "is_hspace a")
      case False
      with Cons 1 show ?thesis by (auto simp: hspace_sub_Cons simp del: re_sub.simps)
    next
      case True
      define d where "d = dropWhile is_hspace as"
      have "length d \<le> length as" unfolding d_def by (rule length_dropWhile_le)
      with Cons have len: "length d < length s" by simp
      from "1.prems" True Cons have "c \<in> set as" by auto
      then have "c \<in> set (takeWhile is_hspace as @ d)" by (simp add: d_def)
      with "1.prems"(2) have "c \<in> set d" by (auto dest: set_takeWhileD)
      with 1 len have "c \<in> set (re_sub RE_HSPACE r d)" by simp
      with True Cons show ?thesis
        by (simp add: hspace_sub_Cons d_def del: re_sub.simps)
    qed
  qed
qed

lemma set_re_sub: "set (re_sub m r s) \<subseteq> set s \<union> set r"
proof (induction m r s rule: re_sub.induct)
  case (1 m repl)
  show ?case by (auto split: option.splits)
next
  case (2 m repl c cs)
  show ?case
  proof (cases "m (c # cs)")
    case None
    with 2 show ?thesis by auto
  next
    case (Some k)
    show ?thesis
    proof (cases k)
      case 0
      with Some 2 show ?thesis by auto
    next
      case (Suc j)
      with Some 2 have "set (re_sub m repl (drop j cs)) \<subseteq> set (drop j cs) \<union> set repl" by simp
      moreover have "set (drop j cs) \<subseteq> set cs" by (rule set_drop_subset)
      ultimately show ?thesis using Some Suc by auto
    qed
  qed
qed

lemma norm_line_content:
  assumes "content_line w"
  shows "norm_line w \<noteq> []" "\<not> isspace (hd (norm_line w))" "\<not> isspace (last (norm_line w))"
    "NL \<notin> set (norm_line w)" "CR \<notin> set (norm_line w)" "content_line (norm_line w)"
    "norm_line (norm_line w) = norm_line w"
proof -
  define h where "h = re_sub RE_HSPACE [SP] w"
  have n: "norm_line w = strip h" by (simp add: norm_line_def h_def)
  from assms obtain c where c: "c \<in> set w" "\<not> isspace c"
    by (auto simp: content_line_def list_all_iff)
  then have "c \<in> set h" unfolding h_def by (intro hspace_sub_keeps) (simp_all add: is_hspace_def)
  with c have "\<not> list_all isspace h" by (auto simp: list_all_iff)
  then show ne: "norm_line w \<noteq> []" by (simp add: n strip_Nil_iff)
  with strip_ends [of h] show e: "\<not> isspace (hd (norm_line w))" "\<not> isspace (last (norm_line w))"
    by (simp_all add: n)
  have "set h \<subseteq> set w \<union> {SP}" unfolding h_def using set_re_sub [of RE_HSPACE "[SP]" w] by simp
  with set_strip [of h] have sub: "set (norm_line w) \<subseteq> set w \<union> {SP}" by (auto simp: n)
  with assms show nl: "NL \<notin> set (norm_line w)" by (auto simp: content_line_def)
  have okh: "ok_hs h" unfolding h_def by (rule ok_hs_sub)
  then have ok: "ok_hs (norm_line w)" unfolding n by (rule ok_hs_strip)
  show cr: "CR \<notin> set (norm_line w)"
  proof
    assume "CR \<in> set (norm_line w)"
    with ok have "CR = SP" by (rule ok_hs_char) (simp add: is_hspace_def)
    then show False by simp
  qed
  from ne e(1) have "\<not> list_all isspace (norm_line w)"
    by (cases "norm_line w") auto
  with nl cr show "content_line (norm_line w)" by (simp add: content_line_def)
  from ok have "re_sub RE_HSPACE [SP] (norm_line w) = norm_line w" by (rule ok_hs_fixed)
  then show "norm_line (norm_line w) = norm_line w"
    by (simp add: norm_line_def)
qed

subsection \<open>The normalizer on lines separated by runs of newlines\<close>

lemma content_line_D: "content_line w \<Longrightarrow> text_line w"
  by (auto simp: content_line_def text_line_def)

lemma clean_text_meditations_lines_runs:
  assumes w: "text_line w" and rs: "list_all (\<lambda>(n, w'). 1 \<le> n \<and> text_line w') rs"
  shows "clean_text_meditations (replicate p NL @ runs_text w rs @ replicate q NL) =
         strip (runs_text (norm_line w) (map (\<lambda>(n, w'). (min n 2, norm_line w')) rs))"
proof -
  define t where "t = replicate p NL @ runs_text w rs @ replicate q NL"
  define rs1 where "rs1 = map (\<lambda>(n, w'). (min n 2, w')) rs"
  define rs2 where "rs2 = map (\<lambda>(n, w'). (n, re_sub RE_HSPACE [SP] w')) rs1"
  define rs3 where "rs3 = map (\<lambda>(n, w'). (n, strip w')) rs2"
  define p' where "p' = min p 2"
  define q' where "q' = min q 2"
  from w have w_ne: "w \<noteq> []" and w_nl: "NL \<notin> set w" and w_cr: "CR \<notin> set w"
    by (simp_all add: text_line_def)
  from rs have rs_cr: "\<forall>(n, w')\<in>set rs. CR \<notin> set w'"
    and rs_nl: "list_all (\<lambda>(n, w'). w' \<noteq> [] \<and> NL \<notin> set w') rs"
    by (auto simp: list_all_iff text_line_def)
  have "CR \<notin> set t"
    using w_cr rs_cr by (auto simp: t_def dest!: set_runs_text)
  then have t1: "replace [CR] [NL] (replace [CR, NL] [NL] t) = t"
    by (simp add: replace_absent)
  let ?X = "runs_text w rs @ replicate q NL"
  have "hd ?X = hd w" using runs_text_hd [of w rs] w_ne by simp
  moreover have "hd w \<noteq> NL" using w_ne w_nl by (cases w) auto
  ultimately have "?X = [] \<or> hd ?X \<noteq> NL" by simp
  then have "re_sub RE_NEWLINES3 [NL, NL] (replicate p NL @ ?X) =
             replicate (min p 2) NL @ re_sub RE_NEWLINES3 [NL, NL] ?X"
    by (rule re_sub_newlines3_run)
  also have "re_sub RE_NEWLINES3 [NL, NL] ?X = runs_text w rs1 @ replicate (min q 2) NL"
    unfolding rs1_def using w_ne w_nl rs_nl by (intro newlines3_runs) simp_all
  finally have t2: "re_sub RE_NEWLINES3 [NL, NL] t =
                    replicate p' NL @ runs_text w rs1 @ replicate q' NL"
    by (simp add: t_def p'_def q'_def)
  have rs1_ok: "list_all (\<lambda>(n, w'). 1 \<le> n \<and> NL \<notin> set w') rs1"
    using rs by (auto simp: rs1_def list_all_iff text_line_def)
  have t3: "re_sub RE_HSPACE [SP] (replicate p' NL @ runs_text w rs1 @ replicate q' NL) =
            replicate p' NL @ runs_text (re_sub RE_HSPACE [SP] w) rs2 @ replicate q' NL"
    unfolding rs2_def using w_nl rs1_ok
    by (intro linewise_runs) (simp_all add: hspace_sub_append_NL)
  have nl_hs: "NL \<notin> set (re_sub RE_HSPACE [SP] x)" if "NL \<notin> set x" for x
    using that set_re_sub [of RE_HSPACE "[SP]" x] by auto
  have rs2_ok: "list_all (\<lambda>(n, w'). 1 \<le> n \<and> NL \<notin> set w') rs2"
    using rs1_ok by (auto simp: rs2_def list_all_iff nl_hs)
  have t4: "join [NL] (map strip (split_on NL
              (replicate p' NL @ runs_text (re_sub RE_HSPACE [SP] w) rs2 @ replicate q' NL))) =
            replicate p' NL @ runs_text (strip (re_sub RE_HSPACE [SP] w)) rs3 @ replicate q' NL"
    unfolding rs3_def using w_nl rs2_ok
    by (intro linewise_runs [where G = "\<lambda>s. join [NL] (map strip (split_on NL s))"])
       (simp_all add: strip_lines_NL strip_lines_line nl_hs)
  have rs3_eq: "rs3 = map (\<lambda>(n, w'). (min n 2, norm_line w')) rs"
    by (simp add: rs3_def rs2_def rs1_def norm_line_def comp_def case_prod_beta)
  have t5: "strip (replicate p' NL @ y @ replicate q' NL) = strip y" for y
    by (intro strip_around) (simp_all add: list_all_iff)
  show ?thesis
    unfolding t_def [symmetric]
    by (simp only: clean_text_meditations_def Let_def t1 t2 t3 t4)
       (simp add: norm_line_def [symmetric] t5 rs3_eq [symmetric])
qed

lemma content_runs_stripped:
  assumes w: "content_line w" and rs: "list_all (\<lambda>(n, w'). 1 \<le> n \<and> content_line w') rs"
  shows "strip (runs_text (norm_line w) (map (\<lambda>(n, w'). (min n 2, norm_line w')) rs)) =
         runs_text (norm_line w) (map (\<lambda>(n, w'). (min n 2, norm_line w')) rs)"
proof -
  define rs3 where "rs3 = map (\<lambda>(n, w'). (min n 2, norm_line w')) rs"
  define y where "y = runs_text (norm_line w) rs3"
  have rs3_ne: "list_all (\<lambda>(n, w'). w' \<noteq> []) rs3"
    using rs by (auto simp: rs3_def list_all_iff norm_line_content)
  have y_ne: "y \<noteq> []" and y_hd: "hd y = hd (norm_line w)"
    using runs_text_hd [of "norm_line w" rs3] norm_line_content(1) [OF w] by (simp_all add: y_def)
  have "last y = last (last (norm_line w # map snd rs3))"
    unfolding y_def using norm_line_content(1) [OF w] rs3_ne by (rule runs_text_last)
  moreover have "\<forall>l\<in>set (norm_line w # map snd rs3). \<not> isspace (last l)"
    using rs norm_line_content(3) [OF w]
    by (auto simp: rs3_def list_all_iff norm_line_content)
  moreover have "last (norm_line w # map snd rs3) \<in> set (norm_line w # map snd rs3)"
    by (rule last_in_set) simp
  ultimately have y_last: "\<not> isspace (last y)" by metis
  have "strip y = y"
    using y_ne y_hd y_last norm_line_content(2) [OF w] by (intro strip_fixed) simp
  then show ?thesis by (simp add: y_def rs3_def)
qed

lemma clean_text_meditations_runs:
  assumes w: "content_line w" and rs: "list_all (\<lambda>(n, w'). 1 \<le> n \<and> content_line w') rs"
  shows "clean_text_meditations (replicate p NL @ runs_text w rs @ replicate q NL) =
         runs_text (norm_line w) (map (\<lambda>(n, w'). (min n 2, norm_line w')) rs)"
proof -
  from rs have rs': "list_all (\<lambda>(n, w'). 1 \<le> n \<and> text_line w') rs"
    by (auto simp: list_all_iff content_line_D)
  have "clean_text_meditations (replicate p NL @ runs_text w rs @ replicate q NL) =
        strip (runs_text (norm_line w) (map (\<lambda>(n, w'). (min n 2, norm_line w')) rs))"
    using content_line_D [OF w] rs' by (rule clean_text_meditations_lines_runs)
  also have "\<dots> = runs_text (norm_line w) (map (\<lambda>(n, w'). (min n 2, norm_line w')) rs)"
    using w rs by (rule content_runs_stripped)
  finally show ?thesis .
qed

subsection \<open>Texts without lines of whitespace only\<close>

lemma replace_CR_absent: "CR \<notin> set (replace [CR] [NL] s)"
  by (induction s) (auto simp: startswith_def)

lemma clean_text_meditations_lines:
  "clean_text_meditations t =
   clean_text_meditations (replace [CR] [NL] (replace [CR, NL] [NL] t))"
proof -
  define s where "s = replace [CR] [NL] (replace [CR, NL] [NL] t)"
  have "CR \<notin> set s" unfolding s_def by (rule replace_CR_absent)
  then have "replace [CR] [NL] (replace [CR, NL] [NL] s) = s" by (simp add: replace_absent)
  then show ?thesis
    unfolding s_def [symmetric] by (simp add: clean_text_meditations_def s_def [symmetric])
qed

lemma lines_decomposition_gen:
  assumes "ls \<noteq> []" and "sep = [NL]"
    and "\<forall>l\<in>set ls. l = [] \<or> content_line l"
  shows "(\<exists>p. join sep ls = replicate p NL) \<or>
         (\<exists>p w rs q. join sep ls = replicate p NL @ runs_text w rs @ replicate q NL \<and>
            content_line w \<and> list_all (\<lambda>(n, w'). 1 \<le> n \<and> content_line w') rs)"
  using assms
proof (induction sep ls rule: join.induct)
  case (1 sep)
  then show ?case by simp
next
  case (2 sep l)
  show ?case
  proof (cases "l = []")
    case True
    then have "join sep [l] = replicate 0 NL" by simp
    then show ?thesis by blast
  next
    case False
    with "2.prems" have "content_line l" by simp
    moreover have "join sep [l] = replicate 0 NL @ runs_text l [] @ replicate 0 NL" by simp
    ultimately show ?thesis by (intro disjI2 exI [of _ 0] exI [of _ l] exI [of _ "[]"]) simp
  qed
next
  case (3 sep l m ls)
  from "3.prems" have sep: "sep = [NL]" by simp
  have j: "join sep (l # m # ls) = l @ NL # join sep (m # ls)" by (simp add: sep)
  from "3.prems" have l: "l = [] \<or> content_line l" by simp
  from "3.IH" "3.prems" consider
    (nl) p where "join sep (m # ls) = replicate p NL"
  | (runs) p w rs q where
      "join sep (m # ls) = replicate p NL @ runs_text w rs @ replicate q NL"
      "content_line w" "list_all (\<lambda>(n, w'). 1 \<le> n \<and> content_line w') rs"
    by auto
  then show ?case
  proof cases
    case nl
    show ?thesis
    proof (cases "l = []")
      case True
      with nl j have "join sep (l # m # ls) = replicate (Suc p) NL" by simp
      then show ?thesis by blast
    next
      case False
      with l have cl: "content_line l" by simp
      from nl j have "join sep (l # m # ls) =
                      replicate 0 NL @ runs_text l [] @ replicate (Suc p) NL"
        by simp
      with cl show ?thesis
        by (intro disjI2 exI [of _ 0] exI [of _ l] exI [of _ "[]"] exI [of _ "Suc p"]) simp
    qed
  next
    case runs
    show ?thesis
    proof (cases "l = []")
      case True
      with runs(1) j have "join sep (l # m # ls) =
                        replicate (Suc p) NL @ runs_text w rs @ replicate q NL"
        by simp
      with runs(2,3) show ?thesis
        by (intro disjI2 exI [of _ "Suc p"] exI [of _ w] exI [of _ rs] exI [of _ q]) simp
    next
      case False
      with l have cl: "content_line l" by simp
      from runs(1) j have "join sep (l # m # ls) =
                      replicate 0 NL @ runs_text l ((Suc p, w) # rs) @ replicate q NL"
        by (simp add: replicate_append_same)
      with cl runs(2,3) show ?thesis
        by (intro disjI2 exI [of _ 0] exI [of _ l] exI [of _ "(Suc p, w) # rs"] exI [of _ q])
           simp
    qed
  qed
qed

lemma clean_text_meditations_newlines: "clean_text_meditations (replicate p NL) = []"
proof -
  have "CR \<notin> set (replicate p NL)" by simp
  then have t1: "replace [CR] [NL] (replace [CR, NL] [NL] (replicate p NL)) = replicate p NL"
    by (simp add: replace_absent)
  have "re_sub RE_NEWLINES3 [NL, NL] (replicate p NL @ []) =
        replicate (min p 2) NL @ re_sub RE_NEWLINES3 [NL, NL] []"
    by (rule re_sub_newlines3_run) simp
  then have t2: "re_sub RE_NEWLINES3 [NL, NL] (replicate p NL) = replicate (min p 2) NL"
    by simp
  have t3: "re_sub RE_HSPACE [SP] (replicate k NL) = replicate k NL" for k
    by (induction k) (simp_all add: hspace_sub_Cons is_hspace_def del: re_sub.simps)
  have t4: "join [NL] (map strip (split_on NL (replicate k NL))) = replicate k NL" for k
  proof (induction k)
    case 0
    show ?case by simp
  next
    case (Suc k)
    have "join [NL] (map strip (split_on NL ([] @ NL # replicate k NL))) =
          strip [] @ NL # join [NL] (map strip (split_on NL (replicate k NL)))"
      by (rule strip_lines_NL) simp
    with Suc show ?case by simp
  qed
  have t5: "strip (replicate k NL) = []" for k
    by (simp add: strip_Nil_iff list_all_iff)
  show ?thesis by (simp only: clean_text_meditations_def Let_def t1 t2 t3 t4 t5)
qed

lemma clean_text_meditations_idem:
  assumes "no_space_only_line t"
  shows "clean_text_meditations (clean_text_meditations t) = clean_text_meditations t"
proof -
  define s where "s = replace [CR] [NL] (replace [CR, NL] [NL] t)"
  have cr: "CR \<notin> set s" unfolding s_def by (rule replace_CR_absent)
  have ts: "clean_text_meditations t = clean_text_meditations s"
    unfolding s_def by (rule clean_text_meditations_lines)
  have lines: "\<forall>l\<in>set (split_on NL s). l = [] \<or> content_line l"
  proof
    fix l assume l: "l \<in> set (split_on NL s)"
    with assms have "l = [] \<or> \<not> list_all isspace l"
      by (simp add: no_space_only_line_def text_lines_def s_def list_all_iff)
    moreover have "NL \<notin> set l" using l by (rule split_on_no_sep)
    moreover have "CR \<notin> set l" using split_on_set [OF l] cr by auto
    ultimately show "l = [] \<or> content_line l" by (auto simp: content_line_def)
  qed
  have "join [NL] (split_on NL s) = s" by (rule join_split_on)
  with lines_decomposition_gen [of "split_on NL s" "[NL]"] lines consider
    (nl) p where "s = replicate p NL"
  | (runs) p w rs q where "s = replicate p NL @ runs_text w rs @ replicate q NL"
      "content_line w" "list_all (\<lambda>(n, w'). 1 \<le> n \<and> content_line w') rs"
    by auto
  then have "clean_text_meditations (clean_text_meditations s) = clean_text_meditations s"
  proof cases
    case nl
    then show ?thesis
      using clean_text_meditations_newlines [of 0]
      by (simp add: clean_text_meditations_newlines)
  next
    case runs
    define rs' where "rs' = map (\<lambda>(n, w'). (min n 2, norm_line w')) rs"
    have u: "clean_text_meditations s = runs_text (norm_line w) rs'"
      unfolding runs(1) rs'_def using runs(2,3) by (rule clean_text_meditations_runs)
    have w': "content_line (norm_line w)" using runs(2) by (rule norm_line_content)
    have rs'_ok: "list_all (\<lambda>(n, w'). 1 \<le> n \<and> content_line w') rs'"
      using runs(3) by (auto simp: rs'_def list_all_iff norm_line_content)
    have "clean_text_meditations (replicate 0 NL @ runs_text (norm_line w) rs' @ replicate 0 NL) =
          runs_text (norm_line (norm_line w)) (map (\<lambda>(n, w'). (min n 2, norm_line w')) rs')"
      using w' rs'_ok by (rule clean_text_meditations_runs)
    moreover have "map (\<lambda>(n, w'). (min n 2, norm_line w')) rs' = rs'"
      using runs(3) by (auto simp: rs'_def list_all_iff norm_line_content)
    ultimately show ?thesis
      using runs(2) by (simp add: u norm_line_content)
  qed
  then show ?thesis by (simp add: ts)
qed

lemma set_replace: "set (replace old new s) \<subseteq> set s \<union> set new"
proof (induction old new s rule: replace.induct)
  case (1 old new)
  show ?case by auto
next
  case (2 old new c cs)
  show ?case
  proof (cases "old = []")
    case True
    with 2 show ?thesis by auto
  next
    case False
    show ?thesis
    proof (cases "startswith (c # cs) old")
      case True
      with False 2 have "set (replace old new (drop (length old) (c # cs))) \<subseteq>
                         set (drop (length old) (c # cs)) \<union> set new"
        by simp
      moreover have "set (drop (length old) (c # cs)) \<subseteq> set (c # cs)"
        by (rule set_drop_subset)
      ultimately show ?thesis using True False by auto
    next
      case False
      with \<open>old \<noteq> []\<close> 2 show ?thesis by auto
    qed
  qed
qed

lemma set_join: "c \<in> set (join sep ls) \<Longrightarrow> c \<in> set sep \<or> (\<exists>l\<in>set ls. c \<in> set l)"
  by (induction sep ls rule: join.induct) auto

lemma set_clean_text_meditations:
  "set (clean_text_meditations t) \<subseteq> set t \<union> {NL, SP}"
proof -
  define t1 where "t1 = replace [CR] [NL] (replace [CR, NL] [NL] t)"
  define t2 where "t2 = re_sub RE_NEWLINES3 [NL, NL] t1"
  define t3 where "t3 = re_sub RE_HSPACE [SP] t2"
  define t4 where "t4 = join [NL] (map strip (split_on NL t3))"
  have s1: "set t1 \<subseteq> set t \<union> {NL}"
    unfolding t1_def
    using set_replace [of "[CR]" "[NL]" "replace [CR, NL] [NL] t"]
      set_replace [of "[CR, NL]" "[NL]" t] by auto
  have s2: "set t2 \<subseteq> set t1 \<union> {NL}"
    unfolding t2_def using set_re_sub [of RE_NEWLINES3 "[NL, NL]" t1] by auto
  have s3: "set t3 \<subseteq> set t2 \<union> {SP}"
    unfolding t3_def using set_re_sub [of RE_HSPACE "[SP]" t2] by auto
  have s4: "set t4 \<subseteq> set t3 \<union> {NL}"
  proof
    fix c assume "c \<in> set t4"
    then have "c \<in> set [NL] \<or> (\<exists>l\<in>set (map strip (split_on NL t3)). c \<in> set l)"
      unfolding t4_def by (rule set_join)
    then show "c \<in> set t3 \<union> {NL}"
    proof
      assume "c \<in> set [NL]"
      then show ?thesis by simp
    next
      assume "\<exists>l\<in>set (map strip (split_on NL t3)). c \<in> set l"
      then obtain k where k: "k \<in> set (split_on NL t3)" and c: "c \<in> set (strip k)" by auto
      from c set_strip [of k] have "c \<in> set k" by auto
      with split_on_set [OF k] show ?thesis by auto
    qed
  qed
  have "clean_text_meditations t = strip t4"
    by (simp add: clean_text_meditations_def Let_def t1_def t2_def t3_def t4_def)
  moreover have "set (strip t4) \<subseteq> set t \<union> {NL, SP}"
    using set_strip [of t4] s1 s2 s3 s4 by blast
  ultimately show ?thesis by simp
qed

lemma clean_text_discourses_idem:
  assumes "no_space_only_line (without_markers t)" and "91 \<notin> set (without_markers t)"
  shows "clean_text_discourses (clean_text_discourses t) = clean_text_discourses t"
proof -
  define u where "u = clean_text_meditations (without_markers t)"
  have d: "clean_text_discourses t = u"
    by (simp add: u_def without_markers_def clean_text_discourses_eq)
  have "91 \<notin> set u"
    unfolding u_def using assms(2) set_clean_text_meditations [of "without_markers t"] by auto
  then have "clean_text_discourses u = clean_text_meditations u"
    by (rule clean_text_discourses_no_bracket)
  also have "\<dots> = u" unfolding u_def using assms(1) by (rule clean_text_meditations_idem)
  finally show ?thesis by (simp add: d)
qed

subsection \<open>Newline runs and repeated normalization\<close>

lemmas clean_eval =
  clean_text_meditations_def clean_text_discourses_def RE_NEWLINES3_def RE_HSPACE_def
  RE_FOOTNOTE_REF_def RE_INLINE_PAGE_def is_ref_char_def is_az_def
  is_hspace_def isspace_def isdigit_below strip_def startswith_def lit_def str_def Let_def

lemma without_markers_plain: "91 \<notin> set t \<Longrightarrow> without_markers t = t"
  by (simp add: without_markers_def re_sub_no_match no_bracket_no_marker)

text \<open>
  C5 (amended). Take a text made of lines with a run of one or more newline characters
  between each line and the next, and any number of newlines before the first line and
  after the last. \<open>clean_text\<close> replaces every run of three or more newlines between
  two lines by exactly two newlines (two or more consecutive empty lines become one),
  leaves a run of one or two newlines as it is, normalizes the whitespace of each line,
  and strips the whole. When every line is a content line the last step only drops the
  newlines at both ends; a line of whitespace, of which nothing is left, joins the runs
  on its two sides. In the Discourses this holds of the text that the marker
  substitutions leave, which is the text itself when it has no opening bracket.
\<close>

theorem newline_runs_collapse:
  assumes "text_line w" and "list_all (\<lambda>(n, w'). 1 \<le> n \<and> text_line w') rs"
  shows "clean_text_meditations (replicate p NL @ runs_text w rs @ replicate q NL) =
           strip (runs_text (norm_line w) (map (\<lambda>(n, w'). (min n 2, norm_line w')) rs)) \<and>
         (content_line w \<and> list_all (\<lambda>(n, w'). content_line w') rs \<longrightarrow>
            clean_text_meditations (replicate p NL @ runs_text w rs @ replicate q NL) =
              runs_text (norm_line w) (map (\<lambda>(n, w'). (min n 2, norm_line w')) rs)) \<and>
         (without_markers t = replicate p NL @ runs_text w rs @ replicate q NL \<longrightarrow>
            clean_text_discourses t =
              strip (runs_text (norm_line w) (map (\<lambda>(n, w'). (min n 2, norm_line w')) rs))) \<and>
         (91 \<notin> set (runs_text w rs) \<longrightarrow>
            clean_text_discourses (replicate p NL @ runs_text w rs @ replicate q NL) =
              clean_text_meditations (replicate p NL @ runs_text w rs @ replicate q NL))"
proof -
  define u where "u = replicate p NL @ runs_text w rs @ replicate q NL"
  define r where "r = runs_text (norm_line w) (map (\<lambda>(n, w'). (min n 2, norm_line w')) rs)"
  have m: "clean_text_meditations u = strip r"
    unfolding u_def r_def using assms by (rule clean_text_meditations_lines_runs)
  have c: "clean_text_meditations u = r"
    if "content_line w \<and> list_all (\<lambda>(n, w'). content_line w') rs"
  proof -
    from that assms(2) have "list_all (\<lambda>(n, w'). 1 \<le> n \<and> content_line w') rs"
      by (auto simp: list_all_iff)
    with that show ?thesis unfolding u_def r_def by (intro clean_text_meditations_runs) simp
  qed
  have d: "clean_text_discourses t = strip r" if "without_markers t = u" for t
    using that m by (simp add: clean_text_discourses_eq without_markers_def)
  have "clean_text_discourses u = clean_text_meditations u" if "91 \<notin> set (runs_text w rs)"
  proof -
    from that have "91 \<notin> set u" by (auto simp: u_def)
    then show ?thesis by (rule clean_text_discourses_no_bracket)
  qed
  with m c d show ?thesis unfolding u_def r_def by blast
qed

theorem newline_runs_collapse_witness:
  "text_line (str ''a b'') \<and> content_line (str ''a b'') \<and>
   list_all (\<lambda>(n, w'). 1 \<le> n \<and> text_line w') [(3::nat, str ''c''), (4, str '' d'')] \<and>
   list_all (\<lambda>(n, w'). content_line w') [(3::nat, str ''c''), (4, str '' d'')] \<and>
   clean_text_meditations three_lines =
     str ''a b'' @ [NL, NL] @ str ''c'' @ [NL, NL] @ str ''d'' \<and>
   clean_text_discourses three_lines =
     str ''a b'' @ [NL, NL] @ str ''c'' @ [NL, NL] @ str ''d'' \<and>
   text_line (str ''a'') \<and>
   list_all (\<lambda>(n, w'). 1 \<le> n \<and> text_line w') [(4::nat, str ''b c'')] \<and>
   without_markers marked_lines = str ''a'' @ [NL, NL, NL, NL] @ str ''b c'' \<and>
   clean_text_discourses marked_lines = str ''a'' @ [NL, NL] @ str ''b c'' \<and>
   list_all (\<lambda>(n, w'). 1 \<le> n \<and> text_line w') [(1::nat, [SP]), (1, [SP]), (1, str ''b'')] \<and>
   clean_text_meditations (str ''a'' @ [NL, SP, NL, SP, NL] @ str ''b'') =
     str ''a'' @ [NL, NL, NL] @ str ''b''"
proof -
  have c: "text_line (str ''a b'')" "text_line (str ''a'')"
    "list_all (\<lambda>(n, w'). 1 \<le> n \<and> text_line w') [(3::nat, str ''c''), (4, str '' d'')]"
    "list_all (\<lambda>(n, w'). 1 \<le> n \<and> text_line w') [(4::nat, str ''b c'')]"
    "list_all (\<lambda>(n, w'). 1 \<le> n \<and> text_line w') [(1::nat, [SP]), (1, [SP]), (1, str ''b'')]"
    by (simp_all add: text_line_def str_def)
  have k: "content_line (str ''a b'')"
    "list_all (\<lambda>(n, w'). content_line w') [(3::nat, str ''c''), (4, str '' d'')]"
    by (simp_all add: content_line_def str_def isspace_def)
  have n: "norm_line (str ''a b'') = str ''a b''" "norm_line (str ''c'') = str ''c''"
    "norm_line (str '' d'') = str ''d''" "norm_line (str ''a'') = str ''a''"
    "norm_line (str ''b c'') = str ''b c''" "norm_line [SP] = []"
    "norm_line (str ''b'') = str ''b''"
    by (simp_all add: norm_line_def RE_HSPACE_def is_hspace_def strip_def str_def isspace_def)
  have t: "three_lines =
           replicate 0 NL @ runs_text (str ''a b'') [(3, str ''c''), (4, str '' d'')] @
           replicate 1 NL"
    by (simp add: three_lines_def numeral_3_eq_3 numeral_eq_Suc)
  have b: "91 \<notin> set (runs_text (str ''a b'') [(3, str ''c''), (4, str '' d'')])"
    by (simp add: str_def)
  have w: "without_markers marked_lines = str ''a'' @ [NL, NL, NL, NL] @ str ''b c''"
    by (simp add: without_markers_def marked_lines_def clean_eval)
  then have w': "without_markers marked_lines =
                 replicate 0 NL @ runs_text (str ''a'') [(4, str ''b c'')] @ replicate 0 NL"
    by (simp add: numeral_eq_Suc)
  have s: "str ''a'' @ [NL, SP, NL, SP, NL] @ str ''b'' =
           replicate 0 NL @ runs_text (str ''a'') [(1, [SP]), (1, [SP]), (1, str ''b'')] @
           replicate 0 NL"
    by simp
  note three = newline_runs_collapse [OF c(1,3), of 0 1 "[]"]
  from three k have "clean_text_meditations three_lines =
      runs_text (norm_line (str ''a b''))
        (map (\<lambda>(n, w'). (min n 2, norm_line w')) [(3, str ''c''), (4, str '' d'')])"
    unfolding t [symmetric] by blast
  then have m3: "clean_text_meditations three_lines =
                 str ''a b'' @ [NL, NL] @ str ''c'' @ [NL, NL] @ str ''d''"
    by (simp add: n numeral_2_eq_2)
  from three b have "clean_text_discourses three_lines = clean_text_meditations three_lines"
    unfolding t [symmetric] by blast
  with m3 have d3: "clean_text_discourses three_lines =
                    str ''a b'' @ [NL, NL] @ str ''c'' @ [NL, NL] @ str ''d''"
    by simp
  from newline_runs_collapse [OF c(2,4), of 0 0 marked_lines] w'
  have "clean_text_discourses marked_lines =
        strip (runs_text (norm_line (str ''a''))
                 (map (\<lambda>(n, w'). (min n 2, norm_line w')) [(4, str ''b c'')]))"
    by blast
  then have dm: "clean_text_discourses marked_lines = str ''a'' @ [NL, NL] @ str ''b c''"
    by (simp add: n numeral_2_eq_2) (simp add: strip_def str_def isspace_def)
  from newline_runs_collapse [OF c(2,5), of 0 0 "[]"]
  have "clean_text_meditations (str ''a'' @ [NL, SP, NL, SP, NL] @ str ''b'') =
        strip (runs_text (norm_line (str ''a''))
                 (map (\<lambda>(n, w'). (min n 2, norm_line w')) [(1, [SP]), (1, [SP]), (1, str ''b'')]))"
    unfolding s [symmetric] by blast
  then have ms: "clean_text_meditations (str ''a'' @ [NL, SP, NL, SP, NL] @ str ''b'') =
                 str ''a'' @ [NL, NL, NL] @ str ''b''"
    by (simp add: n) (simp add: strip_def str_def isspace_def)
  from m3 d3 dm ms show ?thesis using c k w by simp
qed

text \<open>The claim as stated fails on a run of two blank lines, which is shorter than
  three and yet is collapsed to one blank line.\<close>

theorem blank_line_run_counterexample:
  "split_on NL (str ''a'' @ [NL, NL, NL] @ str ''b'') = [str ''a'', [], [], str ''b''] \<and>
   split_on NL (clean_text_meditations (str ''a'' @ [NL, NL, NL] @ str ''b'')) =
     [str ''a'', [], str ''b''] \<and>
   split_on NL (clean_text_discourses (str ''a'' @ [NL, NL, NL] @ str ''b'')) =
     [str ''a'', [], str ''b'']"
  by (simp add: clean_eval)

text \<open>In the Discourses a footnote reference is removed together with the whitespace
  before it, newlines included: a run of newlines before a reference disappears.\<close>

lemma reference_takes_newlines_before_it:
  "clean_text_discourses (str ''a'' @ [NL, NL, NL] @ str ''[*1-1] b'') = str ''a b''"
  by (simp add: clean_eval)

text \<open>
  C4 (amended). \<open>clean_text\<close> applied twice gives what it gives applied once, for every
  text none of whose lines consists of whitespace only (lines ending at \<open>\r\n\<close>, \<open>\r\<close> or
  \<open>\n\<close>; empty lines are allowed). In the Discourses this is required of the text that
  the two marker substitutions leave, which must hold no opening bracket either; it is
  the text itself when that has no opening bracket.
\<close>

theorem clean_text_idempotent_without_space_only_lines:
  "(no_space_only_line t \<longrightarrow>
      clean_text_meditations (clean_text_meditations t) = clean_text_meditations t) \<and>
   (no_space_only_line (without_markers t) \<and> 91 \<notin> set (without_markers t) \<longrightarrow>
      clean_text_discourses (clean_text_discourses t) = clean_text_discourses t) \<and>
   (no_space_only_line t \<and> 91 \<notin> set t \<longrightarrow>
      clean_text_discourses (clean_text_discourses t) = clean_text_discourses t)"
proof (intro conjI impI)
  assume "no_space_only_line t"
  then show "clean_text_meditations (clean_text_meditations t) = clean_text_meditations t"
    by (rule clean_text_meditations_idem)
next
  assume "no_space_only_line (without_markers t) \<and> 91 \<notin> set (without_markers t)"
  then show "clean_text_discourses (clean_text_discourses t) = clean_text_discourses t"
    by (intro clean_text_discourses_idem) simp_all
next
  assume a: "no_space_only_line t \<and> 91 \<notin> set t"
  then have "without_markers t = t" by (intro without_markers_plain) simp
  with a show "clean_text_discourses (clean_text_discourses t) = clean_text_discourses t"
    by (intro clean_text_discourses_idem) simp_all
qed

lemma spaced_text_clean:
  "clean_text_meditations spaced_text = str ''a b'' @ [NL, NL] @ str ''b [*1-1] c''"
  "clean_text_discourses spaced_text = str ''a b'' @ [NL, NL] @ str ''b c''"
  by (simp_all add: spaced_text_def clean_eval)

theorem clean_text_idempotent_without_space_only_lines_witness:
  "no_space_only_line spaced_text \<and>
   clean_text_meditations spaced_text = str ''a b'' @ [NL, NL] @ str ''b [*1-1] c'' \<and>
   clean_text_meditations (str ''a b'' @ [NL, NL] @ str ''b [*1-1] c'') =
     str ''a b'' @ [NL, NL] @ str ''b [*1-1] c'' \<and>
   no_space_only_line (without_markers spaced_text) \<and>
   91 \<notin> set (without_markers spaced_text) \<and>
   clean_text_discourses spaced_text = str ''a b'' @ [NL, NL] @ str ''b c'' \<and>
   clean_text_discourses (str ''a b'' @ [NL, NL] @ str ''b c'') =
     str ''a b'' @ [NL, NL] @ str ''b c'' \<and>
   no_space_only_line (str ''a b'') \<and> 91 \<notin> set (str ''a b'') \<and>
   clean_text_discourses (clean_text_discourses (str ''a b'')) =
     clean_text_discourses (str ''a b'')"
proof -
  have h: "no_space_only_line spaced_text"
    by (simp add: no_space_only_line_def text_lines_def spaced_text_def str_def isspace_def
          startswith_def)
  have wm: "without_markers spaced_text =
            str '' a   b '' @ [CR, NL, NL, CR, NL, NL] @ str ''  b c'' @ [9, NL]"
    by (simp add: without_markers_def spaced_text_def clean_eval)
  have hd: "no_space_only_line (without_markers spaced_text)"
    unfolding wm
    by (simp add: no_space_only_line_def text_lines_def str_def isspace_def startswith_def)
  have b: "91 \<notin> set (without_markers spaced_text)"
    unfolding wm by (simp add: str_def)
  have p: "no_space_only_line (str ''a b'')" "91 \<notin> set (str ''a b'')"
    by (simp_all add: no_space_only_line_def text_lines_def str_def isspace_def
          startswith_def)
  from clean_text_idempotent_without_space_only_lines [of spaced_text]
    clean_text_idempotent_without_space_only_lines [of "str ''a b''"] h hd b p
  show ?thesis by (simp add: spaced_text_clean)
qed

text \<open>The claim as stated fails: lines that hold only spaces become empty lines after the
  newline runs have been collapsed, so the first result holds three newlines in a row,
  which the second application collapses.\<close>

theorem clean_text_idempotence_counterexample:
  "clean_text_meditations (str ''a'' @ [NL, SP, NL, SP, NL] @ str ''b'') =
     str ''a'' @ [NL, NL, NL] @ str ''b'' \<and>
   clean_text_meditations (clean_text_meditations (str ''a'' @ [NL, SP, NL, SP, NL] @ str ''b'')) =
     str ''a'' @ [NL, NL] @ str ''b'' \<and>
   clean_text_discourses (str ''a'' @ [NL, SP, NL, SP, NL] @ str ''b'') =
     str ''a'' @ [NL, NL, NL] @ str ''b'' \<and>
   clean_text_discourses (clean_text_discourses (str ''a'' @ [NL, SP, NL, SP, NL] @ str ''b'')) =
     str ''a'' @ [NL, NL] @ str ''b''"
  by (simp add: clean_eval)

text \<open>In the Discourses the substitutions are single passes as well: the text left by a
  removed footnote reference can form a new one with what stood around it.\<close>

lemma removed_reference_forms_reference:
  "clean_text_discourses (str ''x [*[*a]b]'') = str ''x [*b]'' \<and>
   clean_text_discourses (clean_text_discourses (str ''x [*[*a]b]'')) = str ''x''"
  by (simp add: clean_eval)

section \<open>Properties of the Discourses parser\<close>

subsection \<open>Chapter headers inside a notes region\<close>

lemma lit_hd: "lit p s = Some r \<Longrightarrow> p \<noteq> [] \<Longrightarrow> s \<noteq> [] \<and> hd s = hd p"
  by (cases p; cases s) (auto simp: lit_def startswith_def split: if_splits)


lemma noise_line_hd:
  assumes "is_noise_line line"
  shows "strip line \<noteq> [] \<and> (hd (strip line) = 91 \<or> hd (strip line) = 84)"
proof -
  from assms have "RE_PAGE_MARKER (strip line) \<or> RE_SACRED_TEXTS_HEADER (strip line)"
    by (simp add: is_noise_line_def Let_def split: if_splits)
  then show ?thesis
  proof
    assume "RE_PAGE_MARKER (strip line)"
    then obtain r where "lit (str ''[p.'') (strip line) = Some r"
      by (auto simp: RE_PAGE_MARKER_def split: option.splits)
    from lit_hd [OF this] show ?thesis by (simp add: str_def)
  next
    assume "RE_SACRED_TEXTS_HEADER (strip line)"
    then obtain r where
      "lit (str ''The Discourses of Epictetus, tr. by P.E'') (strip line) = Some r"
      by (auto simp: RE_SACRED_TEXTS_HEADER_def split: option.splits)
    from lit_hd [OF this] show ?thesis by (simp add: str_def)
  qed
qed

lemma notes_header_hd:
  assumes "RE_NOTES_HEADER s"
  shows "startswith s (str ''Book '')"
  using assms by (auto simp: RE_NOTES_HEADER_def lit_def split: option.splits if_splits)

lemma separator_hd:
  assumes "RE_DISCOURSES_SEPARATOR s"
  shows "s \<noteq> [] \<and> hd s = 84"
proof -
  from assms obtain r where "lit (str ''The Discourses.'') s = Some r"
    by (auto simp: RE_DISCOURSES_SEPARATOR_def split: option.splits)
  from lit_hd [OF this] show ?thesis by (simp add: str_def)
qed

lemma note_line_hd:
  assumes "RE_NOTE_LINE s"
  shows "s \<noteq> [] \<and> hd s = 94"
proof -
  from assms obtain r where "lit [94] s = Some r"
    by (auto simp: RE_NOTE_LINE_def split: option.splits)
  from lit_hd [OF this] show ?thesis by simp
qed

lemma book_header_prefix:
  assumes "RE_BOOK_HEADER_discourses s = Some bm"
  shows "startswith s (str ''BOOK '')"
  using assms by (auto simp: RE_BOOK_HEADER_discourses_def lit_def split: option.splits if_splits)

lemma chapter_header_prefix:
  assumes "RE_CHAPTER_HEADER_discourses s = Some cm"
  shows "startswith s (str ''CHAPTER '')"
  using assms by (auto simp: RE_CHAPTER_HEADER_discourses_def lit_def split: option.splits if_splits)

lemma startswith_hd: "startswith s p \<Longrightarrow> p \<noteq> [] \<Longrightarrow> s \<noteq> [] \<and> hd s = hd p"
  by (cases p; cases s) (auto simp: startswith_def)

lemma startswith_take: "startswith s p \<Longrightarrow> take (length p) s = p"
  by (simp add: startswith_def)

lemma chapter_line_plain:
  assumes "RE_CHAPTER_HEADER_discourses (strip line) = Some cm"
  shows "\<not> is_noise_line line" "\<not> RE_NOTES_HEADER (strip line)"
    "\<not> RE_DISCOURSES_SEPARATOR (strip line)" "\<not> RE_NOTE_LINE (strip line)"
    "RE_BOOK_HEADER_discourses (strip line) = None"
proof -
  from chapter_header_prefix [OF assms]
  have h: "strip line \<noteq> [] \<and> hd (strip line) = 67"
    by (auto dest!: startswith_hd simp: str_def)
  show "\<not> is_noise_line line" using h noise_line_hd [of line] by auto
  show "\<not> RE_NOTES_HEADER (strip line)"
    using h by (auto dest!: notes_header_hd startswith_hd simp: str_def)
  show "\<not> RE_DISCOURSES_SEPARATOR (strip line)" using h separator_hd [of "strip line"] by auto
  show "\<not> RE_NOTE_LINE (strip line)" using h note_line_hd [of "strip line"] by auto
  show "RE_BOOK_HEADER_discourses (strip line) = None"
  proof (cases "RE_BOOK_HEADER_discourses (strip line)")
    case None
    then show ?thesis .
  next
    case (Some bm)
    then have "startswith (strip line) (str ''BOOK '')" by (rule book_header_prefix)
    with h show ?thesis by (auto dest!: startswith_hd simp: str_def)
  qed
qed

lemma book_line_plain:
  assumes "RE_BOOK_HEADER_discourses (strip line) = Some bm"
  shows "\<not> is_noise_line line" "\<not> RE_NOTES_HEADER (strip line)"
    "\<not> RE_DISCOURSES_SEPARATOR (strip line)" "\<not> RE_NOTE_LINE (strip line)"
proof -
  from book_header_prefix [OF assms]
  have p: "take (length (str ''BOOK '')) (strip line) = str ''BOOK ''"
    by (rule startswith_take)
  from book_header_prefix [OF assms] have h: "strip line \<noteq> [] \<and> hd (strip line) = 66"
    by (auto dest!: startswith_hd simp: str_def)
  show "\<not> is_noise_line line" using h noise_line_hd [of line] by auto
  show "\<not> RE_NOTES_HEADER (strip line)"
  proof
    assume "RE_NOTES_HEADER (strip line)"
    then have "take (length (str ''Book '')) (strip line) = str ''Book ''"
      by (intro startswith_take notes_header_hd)
    with p show False by (simp add: str_def)
  qed
  show "\<not> RE_DISCOURSES_SEPARATOR (strip line)" using h separator_hd [of "strip line"] by auto
  show "\<not> RE_NOTE_LINE (strip line)" using h note_line_hd [of "strip line"] by auto
qed

lemma discourses_step_book:
  assumes "RE_BOOK_HEADER_discourses (strip line) = Some bm"
  shows "discourses_step st line =
     \<lparr>chapters = save_chapter st, current_book = Some (roman_to_int bm),
      current_chapter_num = None, current_chapter_title = None, current_chapter_lines = [],
      awaiting_title = False, in_notes = False\<rparr>"
  using assms book_line_plain [OF assms] by (simp add: discourses_step_def)

lemma discourses_step_chapter:
  assumes "RE_CHAPTER_HEADER_discourses (strip line) = Some cm"
  shows "discourses_step st line =
     (if in_notes st then st
      else st\<lparr>chapters := save_chapter st, current_chapter_num := Some (roman_to_int cm),
              current_chapter_title := None, current_chapter_lines := [],
              awaiting_title := True\<rparr>)"
  using assms chapter_line_plain [OF assms] by (simp add: discourses_step_def)

text \<open>
  C7. A line that matches the CHAPTER header pattern while \<open>in_notes\<close> is set leaves
  the state of the loop of \<open>parse_discourses\<close> as it is: it opens no chapter and the
  result is that of the input without the line. After a BOOK header line, which clears
  \<open>in_notes\<close>, the same line opens a new chapter with its number.
\<close>

theorem chapter_header_in_notes_region:
  assumes "RE_CHAPTER_HEADER_discourses (strip line) = Some cm"
  shows "(in_notes st \<longrightarrow>
            discourses_step st line = st \<and>
            foldl discourses_step st (line # rest) = foldl discourses_step st rest) \<and>
         (\<forall>book_line bm. RE_BOOK_HEADER_discourses (strip book_line) = Some bm \<longrightarrow>
            \<not> in_notes (discourses_step st book_line) \<and>
            discourses_step (discourses_step st book_line) line =
              \<lparr>chapters = save_chapter st, current_book = Some (roman_to_int bm),
               current_chapter_num = Some (roman_to_int cm), current_chapter_title = None,
               current_chapter_lines = [], awaiting_title = True, in_notes = False\<rparr>)"
proof -
  have a: "discourses_step st line = st" if "in_notes st"
    using that by (simp add: discourses_step_chapter [OF assms])
  have b: "\<not> in_notes (discourses_step st book_line) \<and>
      discourses_step (discourses_step st book_line) line =
        \<lparr>chapters = save_chapter st, current_book = Some (roman_to_int bm),
         current_chapter_num = Some (roman_to_int cm), current_chapter_title = None,
         current_chapter_lines = [], awaiting_title = True, in_notes = False\<rparr>"
    if "RE_BOOK_HEADER_discourses (strip book_line) = Some bm" for book_line bm
    by (simp add: discourses_step_book [OF that] discourses_step_chapter [OF assms]
          save_chapter_def)
  from a b show ?thesis by simp
qed

lemmas discourses_eval =
  str_def isspace_def isdigit_below digit_value_below is_AZ_def is_az_def is_az09_def is_ref_char_def strip_def
  startswith_def lit_def at_dollar_def is_IVXLC_def is_IVX_def opt_dot_def
  RE_BOOK_HEADER_discourses_def RE_CHAPTER_HEADER_discourses_def RE_PAGE_MARKER_def
  RE_SACRED_TEXTS_HEADER_def RE_NOTE_LINE_def RE_NOTES_HEADER_def
  RE_DISCOURSES_SEPARATOR_def RE_PREFACE_def RE_PREFACE_SUBTITLE_def ref_marker_def
  ref_ws_end_def RE_FRAGMENTS_HEADER_def RE_MANUAL_HEADER_def RE_INDEX_HEADER_discourses_def
  RE_FRAGMENT_NUMBER_def RE_FRAGMENT_1_ROMAN_def RE_FRAGMENT_TITLE_def
  RE_MANUAL_SECTION_NUMBER_def is_noise_line_def
  roman_to_int_def roman_to_int_while.simps ROMAN_VALUES_def int_of_digits_def

theorem chapter_header_in_notes_region_witness:
  "RE_CHAPTER_HEADER_discourses (strip (str ''CHAPTER II'')) = Some (str ''II'') \<and>
   in_notes notes_state \<and>
   discourses_step notes_state (str ''CHAPTER II'') = notes_state \<and>
   RE_BOOK_HEADER_discourses (strip (str ''BOOK II'')) = Some (str ''II'') \<and>
   current_chapter_num
     (discourses_step (discourses_step notes_state (str ''BOOK II'')) (str ''CHAPTER II'')) =
     Some 2"
proof -
  have c: "RE_CHAPTER_HEADER_discourses (strip (str ''CHAPTER II'')) = Some (str ''II'')"
    by (simp add: discourses_eval)
  have b: "RE_BOOK_HEADER_discourses (strip (str ''BOOK II'')) = Some (str ''II'')"
    by (simp add: discourses_eval)
  have n: "in_notes notes_state" by (simp add: notes_state_def)
  have r: "roman_to_int (str ''II'') = 2" by (simp add: discourses_eval)
  from chapter_header_in_notes_region [OF c, of notes_state "[]"] b c n r
  show ?thesis by simp
qed

subsection \<open>Bare numbers in the Manual\<close>


lemma manual_number_digits:
  assumes "RE_MANUAL_SECTION_NUMBER s = Some g"
  shows "g \<noteq> []" and "list_all isdigit g"
    and "(\<exists>num. int_of_digits g = Inr num) \<longleftrightarrow> length g \<le> 4300"
proof -
  from assms have g: "g = takeWhile isdigit s" and ne: "g \<noteq> []"
    by (auto simp: RE_MANUAL_SECTION_NUMBER_def split: if_splits)
  show "g \<noteq> []" by (rule ne)
  show d: "list_all isdigit g" unfolding g list_all_iff by (auto dest: set_takeWhileD)
  from ne d show "(\<exists>num. int_of_digits g = Inr num) \<longleftrightarrow> length g \<le> 4300"
    by (auto simp: int_of_digits_def)
qed




section \<open>Missing anchors\<close>

subsection \<open>The search loop of the Discourses\<close>


lemma find_bounds_step:
  assumes "i < length lines"
  shows "find_bounds lines i p b =
     (let p' = (if RE_PREFACE (strip (lines ! i)) \<and> p = None then Some i else p);
          b' = (if strip (lines ! i) = str ''BOOK I'' \<and> b = None then Some i else b)
      in if scan_stops lines i then (p', b', Some i)
         else find_bounds lines (i + 1) p' b')"
  using assms by (subst find_bounds.simps) (auto simp: Let_def scan_stops_def)

lemma find_bounds_end:
  "\<not> i < length lines \<Longrightarrow> find_bounds lines i p b = (p, b, None)"
  by (subst find_bounds.simps) simp


lemma find_bounds_book_kept: "fst (snd (find_bounds lines i p (Some x))) = Some x"
proof (induction lines i p "Some x :: nat option" rule: find_bounds.induct)
  case (1 lines i preface_start)
  show ?case
  proof (cases "i < length lines")
    case False
    then show ?thesis by (simp add: find_bounds_end)
  next
    case True
    with "1.hyps" show ?thesis by (simp add: find_bounds_step Let_def scan_stops_def)
  qed
qed






subsection \<open>The searches of the Meditations and of On the Shortness of Life\<close>







text \<open>A chapter number may be written with the decimal digits of any script, here with
  the Arabic-Indic digit one (U+0661).\<close>

lemma chapter_1_with_arabic_indic_digit:
  "chapter_1_located
     [str ''Contents'', 1633 # str ''. It is not that we have a short time'']"
  "find_content_start
     [str ''Contents'', 1633 # str ''. It is not that we have a short time''] = ([], Inr 1)"
  "exit_status
     (main_shortness
        [str ''Contents'', 1633 # str ''. It is not that we have a short time''] False) = 0"
  "map_option (map s_text)
     (written
        (main_shortness
           [str ''Contents'', 1633 # str ''. It is not that we have a short time''] False)) =
   Some [str ''It is not that we have a short time'']"
  by (simp_all add: chapter_1_located_def int_fails_def chapter_number_def
        find_content_start_def main_shortness_def parse_chapters_def chapters_step_def
        chapter_header_1_20_def save_short_chapter_def build_sections_shortness_def
        short_chapter_section_def clean_chapter_text_def para_step_def
        RE_FOOTNOTES_HEADER_def RE_FOOTNOTE_LINE_def RE_FOOTNOTE_MARKER_def RE_SPACES2_def
        List.map_filter_simps upt_rec
        RE_CHAPTER_HEADER_shortness_def int_of_digits_def arabic_indic_one isdigit_below
        lit_def startswith_def strip_def str_def isspace_def Let_def)





section \<open>Word counts\<close>

lemma set_map_filter: "y \<in> set (List.map_filter f xs) \<longleftrightarrow> (\<exists>x\<in>set xs. f x = Some y)"
  by (induction xs) (auto split: option.splits)

lemma letter_section_ok: "letter_section l = Some s \<Longrightarrow> word_count_ok s"
  by (auto simp: letter_section_def word_count_ok_def Let_def split: if_splits)

lemma chapter_section_ok: "chapter_section c = Some s \<Longrightarrow> word_count_ok s"
  by (auto simp: chapter_section_def word_count_ok_def Let_def split: if_splits)

lemma fragment_section_ok: "fragment_section f = Some s \<Longrightarrow> word_count_ok s"
  by (auto simp: fragment_section_def word_count_ok_def Let_def split: if_splits)

lemma manual_section_ok: "manual_section m = Some s \<Longrightarrow> word_count_ok s"
  by (auto simp: manual_section_def word_count_ok_def Let_def split: if_splits)

lemma preface_section_ok: "s \<in> set (preface_section p) \<Longrightarrow> word_count_ok s"
  by (auto simp: preface_section_def word_count_ok_def split: if_splits)

lemma meditation_section_ok: "meditation_section b e = Some s \<Longrightarrow> word_count_ok s"
  by (auto simp: meditation_section_def word_count_ok_def Let_def split: if_splits)

lemma short_chapter_section_ok: "short_chapter_section c = Some s \<Longrightarrow> word_count_ok s"
  by (auto simp: short_chapter_section_def word_count_ok_def Let_def split: if_splits)

text \<open>
  C3. In every section record that one of the four \<open>build_sections\<close> emits, the word
  count is the number of whitespace-delimited tokens of the text of that record,
  \<open>len(text.split())\<close>.
\<close>

theorem word_count_matches_text:
  "(\<forall>s\<in>set (build_sections_letters raw_l).
      s_word_count s = length (split_ws (s_text s))) \<and>
   (\<forall>s\<in>set (build_sections_discourses preface_text chs frags manual_secs).
      s_word_count s = length (split_ws (s_text s))) \<and>
   (\<forall>s\<in>set (build_sections_meditations bks).
      s_word_count s = length (split_ws (s_text s))) \<and>
   (\<forall>s\<in>set (build_sections_shortness raw_s).
      s_word_count s = length (split_ws (s_text s)))"
proof (intro conjI ballI)
  fix s assume "s \<in> set (build_sections_letters raw_l)"
  then have "word_count_ok s"
    by (auto simp: build_sections_letters_def set_map_filter letter_section_ok)
  then show "s_word_count s = length (split_ws (s_text s))" by (simp add: word_count_ok_def)
next
  fix s assume "s \<in> set (build_sections_discourses preface_text chs frags manual_secs)"
  then have "word_count_ok s"
    by (auto simp: build_sections_discourses_def set_map_filter preface_section_ok
          chapter_section_ok fragment_section_ok manual_section_ok)
  then show "s_word_count s = length (split_ws (s_text s))" by (simp add: word_count_ok_def)
next
  fix s assume "s \<in> set (build_sections_meditations bks)"
  then have "word_count_ok s"
    by (auto simp: build_sections_meditations_def set_map_filter meditation_section_ok)
  then show "s_word_count s = length (split_ws (s_text s))" by (simp add: word_count_ok_def)
next
  fix s assume "s \<in> set (build_sections_shortness raw_s)"
  then have "word_count_ok s"
    by (auto simp: build_sections_shortness_def set_map_filter short_chapter_section_ok)
  then show "s_word_count s = length (split_ws (s_text s))" by (simp add: word_count_ok_def)
qed

lemma sample_texts:
  "map s_text (build_sections_letters [sample_letter]) = [str ''Continue to act thus.'']"
  "map s_text (build_sections_discourses [] [sample_chapter] [] []) =
     [str ''To the rational creature.'']"
  "map s_text (build_sections_meditations [sample_book]) =
     [str ''Begin the morning.'' @ [NL, NL] @ str ''This in Carnuntum.'']"
  "map s_text (build_sections_shortness [sample_short_chapter]) =
     [str ''You will see the most powerful.'']"
     apply (simp add: sample_letter_def build_sections_letters_def letter_section_def
        clean_letter_text_def clean_letter_step_def RE_FOOTNOTE_LINE_def RE_FOOTNOTE_MARKER_def
        RE_SPACES2_def RE_NEWLINES3_def strip_def startswith_def str_def isspace_def
        isdigit_below Let_def)
    apply (simp add: sample_chapter_def build_sections_discourses_def preface_section_def
        chapter_section_def clean_eval)
   apply (simp add: sample_book_def build_sections_meditations_def meditation_section_def
        split_book_into_sections_def paragraph_step_def attach_colophon_def
        RE_COLOPHON_BOOK2_def enumerate_eq_zip clean_eval)
  apply (simp add: sample_short_chapter_def build_sections_shortness_def
        short_chapter_section_def clean_chapter_text_def para_step_def RE_FOOTNOTES_HEADER_def
        RE_FOOTNOTE_LINE_def RE_FOOTNOTE_MARKER_def RE_SPACES2_def strip_def startswith_def
        lit_def str_def isspace_def isdigit_below Let_def)
  done

lemma split_ws_sample: "length (split_ws (str ''Continue to act thus.'')) = 4"
  by (simp add: split_ws.simps str_def isspace_def)

theorem word_count_matches_text_witness:
  "map s_text (build_sections_letters [sample_letter]) = [str ''Continue to act thus.''] \<and>
   map s_word_count (build_sections_letters [sample_letter]) = [4] \<and>
   build_sections_discourses [] [sample_chapter] [] [] \<noteq> [] \<and>
   list_all (\<lambda>s. s_word_count s = length (split_ws (s_text s)))
     (build_sections_discourses [] [sample_chapter] [] []) \<and>
   build_sections_meditations [sample_book] \<noteq> [] \<and>
   list_all (\<lambda>s. s_word_count s = length (split_ws (s_text s)))
     (build_sections_meditations [sample_book]) \<and>
   build_sections_shortness [sample_short_chapter] \<noteq> [] \<and>
   list_all (\<lambda>s. s_word_count s = length (split_ws (s_text s)))
     (build_sections_shortness [sample_short_chapter])"
proof -
  note w = word_count_matches_text
    [of "[sample_letter]" "[]" "[sample_chapter]" "[]" "[]" "[sample_book]"
        "[sample_short_chapter]"]
  obtain s where s: "build_sections_letters [sample_letter] = [s]"
    using sample_texts(1) by (cases "build_sections_letters [sample_letter]") auto
  with sample_texts(1) have t: "s_text s = str ''Continue to act thus.''" by simp
  from w s have "s_word_count s = length (split_ws (s_text s))" by simp
  with t have c: "map s_word_count (build_sections_letters [sample_letter]) = [4]"
    by (simp add: s split_ws_sample)
  have n: "build_sections_discourses [] [sample_chapter] [] [] \<noteq> []"
    "build_sections_meditations [sample_book] \<noteq> []"
    "build_sections_shortness [sample_short_chapter] \<noteq> []"
    using sample_texts(2,3,4) by auto
  from w c n sample_texts(1) show ?thesis by (simp add: list_all_iff)
qed

end
